theory Spec2Isabelle
  imports Main "HOL-Library.Word"
begin

unbundle bit_operations_syntax

section \<open>Data model\<close>

text \<open>
  The transcoder of \<^verbatim>\<open>internal/cbor/decode_stream.go\<close> reads a CBOR byte stream and writes
  JSON text.  Bytes are 8-bit words; input, output and Go strings are byte lists.  The
  buffered reader over an in-memory string is the list of the bytes not yet read:
  \<^verbatim>\<open>ReadByte\<close> takes the head, \<^verbatim>\<open>Peek(1)\<close> looks at it, and \<^verbatim>\<open>UnreadByte\<close>
  (always called right after a successful \<^verbatim>\<open>ReadByte\<close>) gives back the list before that read.
\<close>

type_synonym byte = "8 word"

definition str :: "string \<Rightarrow> byte list" where
  "str s = map of_char s"

text \<open>
  A Go panic carries a value.  The decoders panic with \<^verbatim>\<open>fmt.Errorf\<close> errors (and with the
  \<^verbatim>\<open>io.EOF\<close> that \<^verbatim>\<open>Peek\<close> returns): constructor \<open>Error\<close>, with the message.  The Go runtime
  panics with a \<^verbatim>\<open>runtime.Error\<close>: constructor \<open>RuntimeError\<close>.
\<close>

datatype panic_value = Error "byte list" | RuntimeError "byte list"

text \<open>
  A float64 is kept as the expression that produced it: \<^verbatim>\<open>math.NaN()\<close>, \<^verbatim>\<open>math.Inf(sign)\<close>,
  \<^verbatim>\<open>float64(math.Float32frombits(n))\<close> or \<^verbatim>\<open>math.Float64frombits(n)\<close>.
\<close>

datatype float64 =
    NaN
  | Inf int
  | Float32frombits "32 word"
  | Float64frombits "64 word"

text \<open>
  What the decoder takes from outside \<^verbatim>\<open>decode_stream.go\<close> and that is not arithmetic on
  bytes: the six float patterns and the four extended tag codes (constants of the package's
  \<^verbatim>\<open>cbor.go\<close>), and the text renderings of the Go standard library
  (\<^verbatim>\<open>strconv.AppendFloat(nil, v, 'f', -1, bitSize)\<close>, the two \<^verbatim>\<open>time.Time.AppendFormat\<close>
  renderings in the configured zone, \<^verbatim>\<open>net.HardwareAddr.String\<close>, \<^verbatim>\<open>net.IP.String\<close>,
  \<^verbatim>\<open>net.IPNet.String\<close> of an address and a prefix length).
\<close>

record lib =
  float32Nan :: "byte list"
  float32PosInfinity :: "byte list"
  float32NegInfinity :: "byte list"
  float64Nan :: "byte list"
  float64PosInfinity :: "byte list"
  float64NegInfinity :: "byte list"
  additionalTypeTagNetworkAddr :: "16 word"
  additionalTypeTagNetworkPrefix :: "16 word"
  additionalTypeEmbeddedJSON :: "16 word"
  additionalTypeTagHexString :: "16 word"
  appendFloat :: "float64 \<Rightarrow> nat \<Rightarrow> byte list"
  formatIntegerTime :: "int \<Rightarrow> byte list"
  formatNanoTime :: "float64 \<Rightarrow> byte list"
  hardwareAddrString :: "byte list \<Rightarrow> byte list"
  ipString :: "byte list \<Rightarrow> byte list"
  ipNetString :: "byte list \<Rightarrow> int \<Rightarrow> byte list"

subsection \<open>Constants of the wire format\<close>

text \<open>
  Modelled from the spec: the major types, the masks and the additional-information codes
  are constants of \<^verbatim>\<open>cbor.go\<close>, which is not among the sources.  The spec has the major type
  in the top three bits of the leading byte and the additional information in the low five
  (the byte 0x64 is major type 3 with immediate length 4), immediate values 0 to 23, markers
  for a trailing 1, 2, 4 or 8 byte field, and the indefinite-length marker and break byte;
  the values are those of CBOR.
\<close>

definition majorTypeUnsignedInt :: byte where "majorTypeUnsignedInt = 0x00"
definition majorTypeNegativeInt :: byte where "majorTypeNegativeInt = 0x20"
definition majorTypeByteString :: byte where "majorTypeByteString = 0x40"
definition majorTypeUtf8String :: byte where "majorTypeUtf8String = 0x60"
definition majorTypeArray :: byte where "majorTypeArray = 0x80"
definition majorTypeMap :: byte where "majorTypeMap = 0xA0"
definition majorTypeTags :: byte where "majorTypeTags = 0xC0"
definition majorTypeSimpleAndFloat :: byte where "majorTypeSimpleAndFloat = 0xE0"

definition maskOutAdditionalType :: byte where "maskOutAdditionalType = 0xE0"
definition maskOutMajorType :: byte where "maskOutMajorType = 0x1F"

definition additionalTypeBoolFalse :: byte where "additionalTypeBoolFalse = 20"
definition additionalTypeBoolTrue :: byte where "additionalTypeBoolTrue = 21"
definition additionalTypeNull :: byte where "additionalTypeNull = 22"
definition additionalTypeIntUint8 :: byte where "additionalTypeIntUint8 = 24"
definition additionalTypeIntUint16 :: byte where "additionalTypeIntUint16 = 25"
definition additionalTypeIntUint32 :: byte where "additionalTypeIntUint32 = 26"
definition additionalTypeIntUint64 :: byte where "additionalTypeIntUint64 = 27"
definition additionalTypeFloat16 :: byte where "additionalTypeFloat16 = 25"
definition additionalTypeFloat32 :: byte where "additionalTypeFloat32 = 26"
definition additionalTypeFloat64 :: byte where "additionalTypeFloat64 = 27"
definition additionalTypeBreak :: byte where "additionalTypeBreak = 31"
definition additionalTypeTimestamp :: byte where "additionalTypeTimestamp = 1"
definition additionalTypeInfiniteCount :: byte where "additionalTypeInfiniteCount = 31"

definition hexTable :: "byte list" where
  "hexTable = str ''0123456789abcdef''"

definition isFloat32 :: int where "isFloat32 = 4"
definition isFloat64 :: int where "isFloat64 = 8"

section \<open>Decimal rendering\<close>

text \<open>
  \<^verbatim>\<open>strconv.Itoa\<close> and the \<^verbatim>\<open>%d\<close> verb of \<^verbatim>\<open>fmt\<close>: the decimal digits, most significant
  first, after a minus sign for a negative number.
\<close>

fun digits :: "nat \<Rightarrow> byte list" where
  "digits n = (if n < 10 then [48 + of_nat n] else digits (n div 10) @ [48 + of_nat (n mod 10)])"

declare digits.simps [simp del]

definition Itoa :: "int \<Rightarrow> byte list" where
  "Itoa i = (if i < 0 then 45 # digits (nat (- i)) else digits (nat i))"

section \<open>Byte cursor\<close>

text \<open>
  \<^verbatim>\<open>readNBytes\<close> allocates \<^verbatim>\<open>make([]byte, n)\<close> first.  The Go runtime refuses a length that
  is negative or above its allocation limit \<^verbatim>\<open>maxAlloc\<close> with the runtime panic
  \<^verbatim>\<open>makeslice: len out of range\<close>, before any byte is read; the limit is \<open>2 ^ 48\<close> bytes on
  the 64-bit platforms (where \<^verbatim>\<open>int\<close> has 64 bits, as taken throughout).  Below the limit the
  allocation is taken to succeed: exhaustion of the machine's memory or stack ends the
  process with a fatal error that is no panic, and is not modelled.
\<close>

definition maxAlloc :: int where
  "maxAlloc = 2 ^ 48"

definition readNBytes :: "byte list \<Rightarrow> int \<Rightarrow> panic_value + (byte list \<times> byte list)" where
  "readNBytes src n =
     (if n < 0 \<or> maxAlloc < n then
        Inl (RuntimeError (str ''runtime error: makeslice: len out of range''))
      else if int (length src) < n then
        Inl (Error (str ''tried to Read '' @ Itoa n @ str '' Bytes.. But hit end of file''))
      else Inr (take (nat n) src, drop (nat n) src))"

definition readByte :: "byte list \<Rightarrow> panic_value + (byte \<times> byte list)" where
  "readByte src =
     (case src of
        [] \<Rightarrow> Inl (Error (str ''tried to Read 1 Byte.. But hit end of file''))
      | b # rest \<Rightarrow> Inr (b, rest))"

section \<open>Primitive decoders\<close>

definition decodeIntAdditionalType :: "byte list \<Rightarrow> byte \<Rightarrow> panic_value + (64 word \<times> byte list)" where
  "decodeIntAdditionalType src minor =
     (if minor \<le> 23 then Inr (ucast minor, src)
      else if minor \<notin> {additionalTypeIntUint8, additionalTypeIntUint16,
                        additionalTypeIntUint32, additionalTypeIntUint64} then
        Inl (Error (str ''invalid Additional Type: '' @ Itoa (uint minor) @
                    str '' in decodeInteger (expected <28)''))
      else
        (let bytesToRead =
               (if minor = additionalTypeIntUint8 then 1
                else if minor = additionalTypeIntUint16 then 2
                else if minor = additionalTypeIntUint32 then 4
                else (8::int))
         in case readNBytes src bytesToRead of
              Inl p \<Rightarrow> Inl p
            | Inr (pb, rest) \<Rightarrow> Inr (foldl (\<lambda>val b. val * 256 + ucast b) 0 pb, rest)))"

definition decodeInteger :: "byte list \<Rightarrow> panic_value + (64 word \<times> byte list)" where
  "decodeInteger src =
     (case readByte src of
        Inl p \<Rightarrow> Inl p
      | Inr (pb, src1) \<Rightarrow>
          (let major = pb AND maskOutAdditionalType;
               minor = pb AND maskOutMajorType
           in if major \<noteq> majorTypeUnsignedInt \<and> major \<noteq> majorTypeNegativeInt then
                Inl (Error (str ''major type is: '' @ Itoa (uint major) @
                            str '' in decodeInteger!! (expected 0 or 1)''))
              else
                (case decodeIntAdditionalType src1 minor of
                   Inl p \<Rightarrow> Inl p
                 | Inr (val, rest) \<Rightarrow>
                     if major = 0 then Inr (val, rest) else Inr (- 1 - val, rest))))"


subsection \<open>Floats\<close>

text \<open>
  \<^verbatim>\<open>math.IsNaN\<close> and \<^verbatim>\<open>math.IsInf\<close>, read off the IEEE-754 fields of the pattern a value
  was built from: all exponent bits set and a non-zero fraction is a NaN, all exponent bits
  set and a zero fraction an infinity of the sign bit's sign.  The conversion from float32
  to float64 keeps the class.
\<close>

fun IsNaN :: "float64 \<Rightarrow> bool" where
  "IsNaN NaN = True"
| "IsNaN (Inf sign) = False"
| "IsNaN (Float32frombits n) = (drop_bit 23 n AND 0xFF = 0xFF \<and> take_bit 23 n \<noteq> 0)"
| "IsNaN (Float64frombits n) = (drop_bit 52 n AND 0x7FF = 0x7FF \<and> take_bit 52 n \<noteq> 0)"

fun IsInf :: "float64 \<Rightarrow> int \<Rightarrow> bool" where
  "IsInf NaN sign = False"
| "IsInf (Inf s) sign = ((sign \<ge> 0 \<and> s \<ge> 0) \<or> (sign \<le> 0 \<and> s < 0))"
| "IsInf (Float32frombits n) sign =
     (drop_bit 23 n AND 0xFF = 0xFF \<and> take_bit 23 n = 0 \<and>
      ((sign \<ge> 0 \<and> \<not> bit n 31) \<or> (sign \<le> 0 \<and> bit n 31)))"
| "IsInf (Float64frombits n) sign =
     (drop_bit 52 n AND 0x7FF = 0x7FF \<and> take_bit 52 n = 0 \<and>
      ((sign \<ge> 0 \<and> \<not> bit n 63) \<or> (sign \<le> 0 \<and> bit n 63)))"

definition decodeFloat :: "lib \<Rightarrow> byte list \<Rightarrow> panic_value + ((float64 \<times> int) \<times> byte list)" where
  "decodeFloat L src =
     (case readByte src of
        Inl p \<Rightarrow> Inl p
      | Inr (pb, src1) \<Rightarrow>
          (let major = pb AND maskOutAdditionalType;
               minor = pb AND maskOutMajorType
           in if major \<noteq> majorTypeSimpleAndFloat then
                Inl (Error (str ''incorrect Major type is: '' @ Itoa (uint major) @
                            str '' in decodeFloat''))
              else if minor = additionalTypeFloat16 then
                Inl (Error (str ''float16 is not suppported in decodeFloat''))
              else if minor = additionalTypeFloat32 then
                (case readNBytes src1 4 of
                   Inl p \<Rightarrow> Inl p
                 | Inr (pb, rest) \<Rightarrow>
                     if pb = float32Nan L then Inr ((NaN, isFloat32), rest)
                     else if pb = float32PosInfinity L then Inr ((Inf 0, isFloat32), rest)
                     else if pb = float32NegInfinity L then Inr ((Inf (- 1), isFloat32), rest)
                     else Inr ((Float32frombits (foldl (\<lambda>n b. n * 256 + ucast b) 0 pb),
                                isFloat32), rest))
              else if minor = additionalTypeFloat64 then
                (case readNBytes src1 8 of
                   Inl p \<Rightarrow> Inl p
                 | Inr (pb, rest) \<Rightarrow>
                     if pb = float64Nan L then Inr ((NaN, isFloat64), rest)
                     else if pb = float64PosInfinity L then Inr ((Inf 0, isFloat64), rest)
                     else if pb = float64NegInfinity L then Inr ((Inf (- 1), isFloat64), rest)
                     else Inr ((Float64frombits (foldl (\<lambda>n b. n * 256 + ucast b) 0 pb),
                                isFloat64), rest))
              else Inl (Error (str ''invalid Additional Type: '' @ Itoa (uint minor) @
                               str '' in decodeFloat''))))"

definition decodeSimpleFloat :: "lib \<Rightarrow> byte list \<Rightarrow> panic_value + (byte list \<times> byte list)" where
  "decodeSimpleFloat L src =
     (case readByte src of
        Inl p \<Rightarrow> Inl p
      | Inr (pb, src1) \<Rightarrow>
          (let major = pb AND maskOutAdditionalType;
               minor = pb AND maskOutMajorType
           in if major \<noteq> majorTypeSimpleAndFloat then
                Inl (Error (str ''major type is: '' @ Itoa (uint major) @
                            str '' in decodeSimpleFloat''))
              else if minor = additionalTypeBoolTrue then Inr (str ''true'', src1)
              else if minor = additionalTypeBoolFalse then Inr (str ''false'', src1)
              else if minor = additionalTypeNull then Inr (str ''null'', src1)
              else if minor = additionalTypeFloat16 \<or> minor = additionalTypeFloat32 \<or>
                      minor = additionalTypeFloat64 then
                (case decodeFloat L src of
                   Inl p \<Rightarrow> Inl p
                 | Inr ((v, bc), rest) \<Rightarrow>
                     if IsNaN v then Inr (0x22 # str ''NaN'' @ [0x22], rest)
                     else if IsInf v 1 then Inr (0x22 # str ''+Inf'' @ [0x22], rest)
                     else if IsInf v (- 1) then Inr (0x22 # str ''-Inf'' @ [0x22], rest)
                     else if bc = isFloat32 then Inr (appendFloat L v 32, rest)
                     else if bc = isFloat64 then Inr (appendFloat L v 64, rest)
                     else Inl (Error (str ''invalid Float precision from decodeFloat: '' @
                                      Itoa bc)))
              else Inl (Error (str ''invalid Additional Type: '' @ Itoa (uint minor) @
                               str '' in decodeSimpleFloat''))))"

subsection \<open>Strings\<close>

text \<open>
  \<^verbatim>\<open>utf8.DecodeRuneInString\<close> of the Go standard library, with its table \<^verbatim>\<open>first\<close> of what
  a leading byte announces (0xF0 ASCII, 0xF1 invalid, otherwise the length in the low three
  bits and the index of the range accepted for the second byte in the high four), and its
  table \<^verbatim>\<open>acceptRanges\<close>.  It returns the rune and the number of bytes it takes; an invalid
  encoding is \<^verbatim>\<open>(RuneError, 1)\<close>.
\<close>

definition RuneError :: "32 word" where "RuneError = 0xFFFD"

definition utf8_first :: "byte \<Rightarrow> byte" where
  "utf8_first b =
     (if b < 0x80 then 0xF0 else if b < 0xC2 then 0xF1 else if b < 0xE0 then 0x02
      else if b = 0xE0 then 0x13 else if b < 0xED then 0x03 else if b = 0xED then 0x23
      else if b < 0xF0 then 0x03 else if b = 0xF0 then 0x34 else if b < 0xF4 then 0x04
      else if b = 0xF4 then 0x44 else 0xF1)"

definition acceptRanges :: "byte \<Rightarrow> byte \<times> byte" where
  "acceptRanges k =
     (if k = 0 then (0x80, 0xBF) else if k = 1 then (0xA0, 0xBF)
      else if k = 2 then (0x80, 0x9F) else if k = 3 then (0x90, 0xBF)
      else if k = 4 then (0x80, 0x8F) else (0, 0))"

definition DecodeRuneInString :: "byte list \<Rightarrow> 32 word \<times> nat" where
  "DecodeRuneInString s =
     (case s of
        [] \<Rightarrow> (RuneError, 0)
      | s0 # t \<Rightarrow>
          (let x = utf8_first s0 in
           if x \<ge> 0xF0 then (if bit x 0 then RuneError else ucast s0, 1)
           else
             (let sz = unat (x AND 7);
                  lo = fst (acceptRanges (drop_bit 4 x));
                  hi = snd (acceptRanges (drop_bit 4 x))
              in if length s < sz then (RuneError, 1)
                 else if s ! 1 < lo \<or> hi < s ! 1 then (RuneError, 1)
                 else if sz \<le> 2 then
                   (push_bit 6 (ucast (s0 AND 0x1F)) OR ucast (s ! 1 AND 0x3F), 2)
                 else if s ! 2 < 0x80 \<or> 0xBF < s ! 2 then (RuneError, 1)
                 else if sz \<le> 3 then
                   (push_bit 12 (ucast (s0 AND 0x0F)) OR push_bit 6 (ucast (s ! 1 AND 0x3F)) OR
                    ucast (s ! 2 AND 0x3F), 3)
                 else if s ! 3 < 0x80 \<or> 0xBF < s ! 3 then (RuneError, 1)
                 else
                   (push_bit 18 (ucast (s0 AND 0x07)) OR push_bit 12 (ucast (s ! 1 AND 0x3F)) OR
                    push_bit 6 (ucast (s ! 2 AND 0x3F)) OR ucast (s ! 3 AND 0x3F), 4))))"

lemma DecodeRuneInString_size_pos: "s \<noteq> [] \<Longrightarrow> 0 < snd (DecodeRuneInString s)"
  by (cases s) (simp_all add: DecodeRuneInString_def Let_def)

text \<open>The switch of \<^verbatim>\<open>decodeStringComplex\<close> on a byte that needs an escape.\<close>

definition escapeByte :: "byte \<Rightarrow> byte list" where
  "escapeByte b =
     (if b = 0x22 \<or> b = 0x5C then [0x5C, b]
      else if b = 0x08 then [0x5C, 0x62]
      else if b = 0x0C then [0x5C, 0x66]
      else if b = 0x0A then [0x5C, 0x6E]
      else if b = 0x0D then [0x5C, 0x72]
      else if b = 0x09 then [0x5C, 0x74]
      else [0x5C, 0x75, 0x30, 0x30, hexTable ! unat (drop_bit 4 b), hexTable ! unat (b AND 0xF)])"

text \<open>
  The loop of \<^verbatim>\<open>decodeStringComplex\<close>, on its variables \<open>dst\<close>, \<open>i\<close> and \<open>start\<close>;
  \<open>take (i - start) (drop start s)\<close> is the slice \<^verbatim>\<open>s[start:i]\<close>.
\<close>

function decodeStringComplex_loop :: "byte list \<Rightarrow> byte list \<Rightarrow> nat \<Rightarrow> nat \<Rightarrow> byte list" where
  "decodeStringComplex_loop dst s i start =
     (if i < length s then
        (if s ! i \<ge> 0x80 then
           (if fst (DecodeRuneInString (drop i s)) = RuneError \<and>
               snd (DecodeRuneInString (drop i s)) = 1 then
              decodeStringComplex_loop
                ((if start < i then dst @ take (i - start) (drop start s) else dst) @
                 [0x5C, 0x75, 0x66, 0x66, 0x66, 0x64])
                s (i + snd (DecodeRuneInString (drop i s))) (i + snd (DecodeRuneInString (drop i s)))
            else decodeStringComplex_loop dst s (i + snd (DecodeRuneInString (drop i s))) start)
         else if s ! i \<ge> 0x20 \<and> s ! i \<le> 0x7E \<and> s ! i \<noteq> 0x5C \<and> s ! i \<noteq> 0x22 then
           decodeStringComplex_loop dst s (i + 1) start
         else
           decodeStringComplex_loop
             ((if start < i then dst @ take (i - start) (drop start s) else dst) @
              escapeByte (s ! i))
             s (i + 1) (i + 1))
      else (if start < length s then dst @ drop start s else dst))"
  by pat_completeness auto
termination
proof (relation "measure (\<lambda>(dst, s, i, start). length s - i)")
  fix dst s :: "byte list" and i start :: nat
  assume "i < length s"
  then have "0 < snd (DecodeRuneInString (drop i s))"
    by (intro DecodeRuneInString_size_pos) simp
  with \<open>i < length s\<close>
  show "((dst, s, i + snd (DecodeRuneInString (drop i s)), start), dst, s, i, start)
          \<in> measure (\<lambda>(dst, s, i, start). length s - i)"
    by simp
qed auto

declare decodeStringComplex_loop.simps [simp del]

definition decodeStringComplex :: "byte list \<Rightarrow> byte list \<Rightarrow> nat \<Rightarrow> byte list" where
  "decodeStringComplex dst s pos = decodeStringComplex_loop dst s pos 0"

definition decodeString :: "byte list \<Rightarrow> bool \<Rightarrow> panic_value + (byte list \<times> byte list)" where
  "decodeString src noQuotes =
     (case readByte src of
        Inl p \<Rightarrow> Inl p
      | Inr (pb, src1) \<Rightarrow>
          (let major = pb AND maskOutAdditionalType;
               minor = pb AND maskOutMajorType
           in if major \<noteq> majorTypeByteString then
                Inl (Error (str ''major type is: '' @ Itoa (uint major) @ str '' in decodeString''))
              else
                (case decodeIntAdditionalType src1 minor of
                   Inl p \<Rightarrow> Inl p
                 | Inr (len, src2) \<Rightarrow>
                     (case readNBytes src2 (sint len) of
                        Inl p \<Rightarrow> Inl p
                      | Inr (pbs, rest) \<Rightarrow>
                          if noQuotes then Inr (pbs, rest)
                          else Inr ([0x22] @ pbs @ [0x22], rest)))))"

text \<open>The test of \<^verbatim>\<open>decodeUTF8String\<close> for a byte that needs encoding.\<close>

definition needsEncoding :: "byte \<Rightarrow> bool" where
  "needsEncoding b = (b < 0x20 \<or> b > 0x7E \<or> b = 0x5C \<or> b = 0x22)"

definition decodeUTF8String :: "byte list \<Rightarrow> panic_value + (byte list \<times> byte list)" where
  "decodeUTF8String src =
     (case readByte src of
        Inl p \<Rightarrow> Inl p
      | Inr (pb, src1) \<Rightarrow>
          (let major = pb AND maskOutAdditionalType;
               minor = pb AND maskOutMajorType
           in if major \<noteq> majorTypeUtf8String then
                Inl (Error (str ''major type is: '' @ Itoa (uint major) @
                            str '' in decodeUTF8String''))
              else
                (case decodeIntAdditionalType src1 minor of
                   Inl p \<Rightarrow> Inl p
                 | Inr (len, src2) \<Rightarrow>
                     (case readNBytes src2 (sint len) of
                        Inl p \<Rightarrow> Inl p
                      | Inr (pbs, rest) \<Rightarrow>
                          (let i = length (takeWhile (\<lambda>b. \<not> needsEncoding b) pbs)
                           in if i < length pbs then
                                Inr (decodeStringComplex [0x22] pbs i @ [0x22], rest)
                              else Inr ([0x22] @ pbs @ [0x22], rest))))))"

subsection \<open>Tags\<close>

definition decodeTimeStamp :: "lib \<Rightarrow> byte list \<Rightarrow> panic_value + (byte list \<times> byte list)" where
  "decodeTimeStamp L src =
     (case readByte src of
        Inl p \<Rightarrow> Inl p
      | Inr (pb, _) \<Rightarrow>
          (let tsMajor = pb AND maskOutAdditionalType
           in if tsMajor = majorTypeUnsignedInt \<or> tsMajor = majorTypeNegativeInt then
                (case decodeInteger src of
                   Inl p \<Rightarrow> Inl p
                 | Inr (n, rest) \<Rightarrow> Inr ([0x22] @ formatIntegerTime L (sint n) @ [0x22], rest))
              else if tsMajor = majorTypeSimpleAndFloat then
                (case decodeFloat L src of
                   Inl p \<Rightarrow> Inl p
                 | Inr ((n, _), rest) \<Rightarrow> Inr ([0x22] @ formatNanoTime L n @ [0x22], rest))
              else Inl (Error (str ''TS format is neigther int nor float: '' @
                               Itoa (uint tsMajor)))))"

definition decodeTagData :: "lib \<Rightarrow> byte list \<Rightarrow> panic_value + (byte list \<times> byte list)" where
  "decodeTagData L src =
     (case readByte src of
        Inl p \<Rightarrow> Inl p
      | Inr (pb, src1) \<Rightarrow>
          (let major = pb AND maskOutAdditionalType;
               minor = pb AND maskOutMajorType
           in if major \<noteq> majorTypeTags then
                Inl (Error (str ''major type is: '' @ Itoa (uint major) @ str '' in decodeTagData''))
              else if minor = additionalTypeTimestamp then decodeTimeStamp L src1
              else if minor = additionalTypeIntUint16 then
                (case decodeIntAdditionalType src1 minor of
                   Inl p \<Rightarrow> Inl p
                 | Inr (val, src2) \<Rightarrow>
                     if (ucast val :: 16 word) = additionalTypeEmbeddedJSON L then
                       (case readByte src2 of
                          Inl p \<Rightarrow> Inl p
                        | Inr (pb, _) \<Rightarrow>
                            if pb AND maskOutAdditionalType \<noteq> majorTypeByteString then
                              Inl (Error (str ''unsupported embedded Type: '' @
                                          Itoa (uint (pb AND maskOutAdditionalType)) @
                                          str '' in decodeEmbeddedJSON''))
                            else decodeString src2 True)
                     else if (ucast val :: 16 word) = additionalTypeTagNetworkAddr L then
                       (case decodeString src2 True of
                          Inl p \<Rightarrow> Inl p
                        | Inr (octets, rest) \<Rightarrow>
                            if length octets = 6 then
                              Inr ([0x22] @ hardwareAddrString L octets @ [0x22], rest)
                            else if length octets = 4 \<or> length octets = 16 then
                              Inr ([0x22] @ ipString L octets @ [0x22], rest)
                            else
                              Inl (Error (str ''unexpected Network Address length: '' @
                                          Itoa (int (length octets)) @ str '' (expected 4,6,16)'')))
                     else if (ucast val :: 16 word) = additionalTypeTagNetworkPrefix L then
                       (case readByte src2 of
                          Inl p \<Rightarrow> Inl p
                        | Inr (pb, src3) \<Rightarrow>
                            if pb \<noteq> (majorTypeMap OR 0x1) then
                              Inl (Error (str ''IP Prefix is NOT of MAP of 1 elements as expected''))
                            else
                              (case decodeString src3 True of
                                 Inl p \<Rightarrow> Inl p
                               | Inr (octets, src4) \<Rightarrow>
                                   (case decodeInteger src4 of
                                      Inl p \<Rightarrow> Inl p
                                    | Inr (val, rest) \<Rightarrow>
                                        Inr ([0x22] @ ipNetString L octets (sint val) @ [0x22],
                                             rest))))
                     else if (ucast val :: 16 word) = additionalTypeTagHexString L then
                       (case decodeString src2 True of
                          Inl p \<Rightarrow> Inl p
                        | Inr (octets, rest) \<Rightarrow>
                            Inr ([0x22] @
                                 concat (map (\<lambda>v. [hexTable ! unat (drop_bit 4 v),
                                                    hexTable ! unat (v AND 0x0F)]) octets) @
                                 [0x22], rest))
                     else
                       Inl (Error (str ''unsupported Additional Tag Type: '' @ Itoa (sint val) @
                                   str '' in decodeTagData'')))
              else Inl (Error (str ''unsupported Additional Type: '' @ Itoa (uint minor) @
                               str '' in decodeTagData''))))"

section \<open>Output sink\<close>

text \<open>
  The caller's \<^verbatim>\<open>io.Writer\<close> is a state \<open>'w\<close> and a function: \<^verbatim>\<open>Write(p)\<close> gives the next
  state and the error it returns, if any.  \<^verbatim>\<open>utils.HandleErr(err, msg)\<close> does nothing for a
  nil error and otherwise hands \<open>err\<close> and \<open>msg\<close> to the package logger: the log is the
  list of these pairs.  The decoders carry the writer's state and the log.
\<close>

type_synonym 'w writer = "'w \<Rightarrow> byte list \<Rightarrow> 'w \<times> byte list option"
type_synonym errlog = "(byte list \<times> string) list"

definition HandleErr :: "byte list option \<Rightarrow> string \<Rightarrow> errlog \<Rightarrow> errlog" where
  "HandleErr err msg lg = (case err of None \<Rightarrow> lg | Some e \<Rightarrow> lg @ [(e, msg)])"

text \<open>The pair \<^verbatim>\<open>_, err := dst.Write(p); utils.HandleErr(err, msg)\<close>.\<close>

definition dstWrite :: "'w writer \<Rightarrow> byte list \<Rightarrow> string \<Rightarrow> 'w \<times> errlog \<Rightarrow> 'w \<times> errlog" where
  "dstWrite wr p msg st = (case wr (fst st) p of (w, err) \<Rightarrow> (w, HandleErr err msg (snd st)))"

text \<open>\<^verbatim>\<open>bytes.Buffer\<close>: a write appends and returns no error.\<close>

definition bufferWrite :: "(byte list) writer" where
  "bufferWrite b p = (b @ p, None)"

section \<open>Composite decoders and the dispatcher\<close>

text \<open>
  \<^verbatim>\<open>cbor2JsonOneObject\<close>, \<^verbatim>\<open>array2Json\<close> and \<^verbatim>\<open>map2Json\<close> call each other; the two
  \<^verbatim>\<open>for\<close> loops are \<open>arrayLoop\<close> and \<open>mapLoop\<close> on the loop variable \<open>i\<close>.  Each takes the
  input not yet read and the state of the sink and returns \<open>Inl\<close> the panic or \<open>Inr\<close> the
  input left, with the state of the sink at that moment.  The recursion is on a fuel that
  every call and every iteration spends; \<open>None\<close> is fuel run out.
\<close>

function (sequential) cbor2JsonOneObject ::
      "lib \<Rightarrow> 'w writer \<Rightarrow> nat \<Rightarrow> byte list \<Rightarrow> 'w \<times> errlog \<Rightarrow>
       ((panic_value + byte list) \<times> ('w \<times> errlog)) option"
  and array2Json ::
      "lib \<Rightarrow> 'w writer \<Rightarrow> nat \<Rightarrow> byte list \<Rightarrow> 'w \<times> errlog \<Rightarrow>
       ((panic_value + byte list) \<times> ('w \<times> errlog)) option"
  and arrayLoop ::
      "lib \<Rightarrow> 'w writer \<Rightarrow> nat \<Rightarrow> int \<Rightarrow> int \<Rightarrow> bool \<Rightarrow> byte list \<Rightarrow> 'w \<times> errlog \<Rightarrow>
       ((panic_value + byte list) \<times> ('w \<times> errlog)) option"
  and map2Json ::
      "lib \<Rightarrow> 'w writer \<Rightarrow> nat \<Rightarrow> byte list \<Rightarrow> 'w \<times> errlog \<Rightarrow>
       ((panic_value + byte list) \<times> ('w \<times> errlog)) option"
  and mapLoop ::
      "lib \<Rightarrow> 'w writer \<Rightarrow> nat \<Rightarrow> int \<Rightarrow> int \<Rightarrow> bool \<Rightarrow> byte list \<Rightarrow> 'w \<times> errlog \<Rightarrow>
       ((panic_value + byte list) \<times> ('w \<times> errlog)) option"
where
  "cbor2JsonOneObject L wr 0 src st = None"
| "cbor2JsonOneObject L wr (Suc f) src st =
     (case src of
        [] \<Rightarrow> Some (Inl (Error (str ''EOF'')), st)
      | pb # _ \<Rightarrow>
          (let major = pb AND maskOutAdditionalType
           in if major = majorTypeUnsignedInt \<or> major = majorTypeNegativeInt then
                (case decodeInteger src of
                   Inl p \<Rightarrow> Some (Inl p, st)
                 | Inr (n, rest) \<Rightarrow>
                     Some (Inr rest, dstWrite wr (Itoa (sint n)) ''Can't write'' st))
              else if major = majorTypeByteString then
                (case decodeString src False of
                   Inl p \<Rightarrow> Some (Inl p, st)
                 | Inr (s, rest) \<Rightarrow> Some (Inr rest, dstWrite wr s ''Can't write'' st))
              else if major = majorTypeUtf8String then
                (case decodeUTF8String src of
                   Inl p \<Rightarrow> Some (Inl p, st)
                 | Inr (s, rest) \<Rightarrow> Some (Inr rest, dstWrite wr s ''Can't write'' st))
              else if major = majorTypeArray then array2Json L wr f src st
              else if major = majorTypeMap then map2Json L wr f src st
              else if major = majorTypeTags then
                (case decodeTagData L src of
                   Inl p \<Rightarrow> Some (Inl p, st)
                 | Inr (s, rest) \<Rightarrow> Some (Inr rest, dstWrite wr s ''Can't write'' st))
              else if major = majorTypeSimpleAndFloat then
                (case decodeSimpleFloat L src of
                   Inl p \<Rightarrow> Some (Inl p, st)
                 | Inr (s, rest) \<Rightarrow> Some (Inr rest, dstWrite wr s ''Can't write'' st))
              else Some (Inr src, st)))"
| "array2Json L wr 0 src st = None"
| "array2Json L wr (Suc f) src st =
     (let st1 = dstWrite wr [0x5B] ''Failed to write start of array'' st
      in case readByte src of
           Inl p \<Rightarrow> Some (Inl p, st1)
         | Inr (pb, src1) \<Rightarrow>
             (let major = pb AND maskOutAdditionalType;
                  minor = pb AND maskOutMajorType
              in if major \<noteq> majorTypeArray then
                   Some (Inl (Error (str ''major type is: '' @ Itoa (uint major) @
                                     str '' in array2Json'')), st1)
                 else if minor = additionalTypeInfiniteCount then
                   arrayLoop L wr f 0 0 True src1 st1
                 else
                   (case decodeIntAdditionalType src1 minor of
                      Inl p \<Rightarrow> Some (Inl p, st1)
                    | Inr (len, src2) \<Rightarrow> arrayLoop L wr f 0 (sint len) False src2 st1)))"
| "arrayLoop L wr 0 i len2 unSpecifiedCount src st = None"
| "arrayLoop L wr (Suc f) i len2 unSpecifiedCount src st =
     (if unSpecifiedCount \<or> i < len2 then
        (if unSpecifiedCount \<and> src = [] then Some (Inl (Error (str ''EOF'')), st)
         else if unSpecifiedCount \<and> hd src = (majorTypeSimpleAndFloat OR additionalTypeBreak) then
           Some (Inr (tl src), dstWrite wr [0x5D] ''Failed to write a closing bracket'' st)
         else
           (case cbor2JsonOneObject L wr f src st of
              None \<Rightarrow> None
            | Some (Inl p, st1) \<Rightarrow> Some (Inl p, st1)
            | Some (Inr src1, st1) \<Rightarrow>
                if unSpecifiedCount then
                  (case src1 of
                     [] \<Rightarrow> Some (Inl (Error (str ''EOF'')), st1)
                   | pb # src2 \<Rightarrow>
                       if pb = (majorTypeSimpleAndFloat OR additionalTypeBreak) then
                         Some (Inr src2,
                               dstWrite wr [0x5D] ''Failed to write a closing bracket'' st1)
                       else
                         arrayLoop L wr f (i + 1) len2 unSpecifiedCount src1
                           (dstWrite wr [0x2C] ''Failed to write a comma'' st1))
                else if i + 1 < len2 then
                  arrayLoop L wr f (i + 1) len2 unSpecifiedCount src1
                    (dstWrite wr [0x2C] ''Failed to write a comma'' st1)
                else arrayLoop L wr f (i + 1) len2 unSpecifiedCount src1 st1))
      else Some (Inr src, dstWrite wr [0x5D] ''Failed to write a closing bracket'' st))"
| "map2Json L wr 0 src st = None"
| "map2Json L wr (Suc f) src st =
     (case readByte src of
        Inl p \<Rightarrow> Some (Inl p, st)
      | Inr (pb, src1) \<Rightarrow>
          (let major = pb AND maskOutAdditionalType;
               minor = pb AND maskOutMajorType
           in if major \<noteq> majorTypeMap then
                Some (Inl (Error (str ''major type is: '' @ Itoa (uint major) @
                                  str '' in map2Json'')), st)
              else if minor = additionalTypeInfiniteCount then
                mapLoop L wr f 0 0 True src1 (dstWrite wr [0x7B] ''Can't write'' st)
              else
                (case decodeIntAdditionalType src1 minor of
                   Inl p \<Rightarrow> Some (Inl p, st)
                 | Inr (len, src2) \<Rightarrow>
                     mapLoop L wr f 0 (sint len) False src2
                       (dstWrite wr [0x7B] ''Can't write'' st))))"
| "mapLoop L wr 0 i l unSpecifiedCount src st = None"
| "mapLoop L wr (Suc f) i l unSpecifiedCount src st =
     (if unSpecifiedCount \<or> i < l then
        (if unSpecifiedCount \<and> src = [] then Some (Inl (Error (str ''EOF'')), st)
         else if unSpecifiedCount \<and> hd src = (majorTypeSimpleAndFloat OR additionalTypeBreak) then
           Some (Inr (tl src), dstWrite wr [0x7D] ''Can't write'' st)
         else
           (case cbor2JsonOneObject L wr f src st of
              None \<Rightarrow> None
            | Some (Inl p, st1) \<Rightarrow> Some (Inl p, st1)
            | Some (Inr src1, st1) \<Rightarrow>
                if i mod 2 = 0 then
                  mapLoop L wr f (i + 1) l unSpecifiedCount src1
                    (dstWrite wr [0x3A] ''Can't write'' st1)
                else if unSpecifiedCount then
                  (case src1 of
                     [] \<Rightarrow> Some (Inl (Error (str ''EOF'')), st1)
                   | pb # src2 \<Rightarrow>
                       if pb = (majorTypeSimpleAndFloat OR additionalTypeBreak) then
                         Some (Inr src2, dstWrite wr [0x7D] ''Can't write'' st1)
                       else
                         mapLoop L wr f (i + 1) l unSpecifiedCount src1
                           (dstWrite wr [0x2C] ''Can't write'' st1))
                else if i + 1 < l then
                  mapLoop L wr f (i + 1) l unSpecifiedCount src1
                    (dstWrite wr [0x2C] ''Can't write'' st1)
                else mapLoop L wr f (i + 1) l unSpecifiedCount src1 st1))
      else Some (Inr src, dstWrite wr [0x7D] ''Can't write'' st))"
  by pat_completeness auto
termination
  by (relation "measure (\<lambda>x. case x of
          Inl (Inl p) \<Rightarrow> fst (snd (snd p))
        | Inl (Inr p) \<Rightarrow> fst (snd (snd p))
        | Inr (Inl p) \<Rightarrow> fst (snd (snd p))
        | Inr (Inr (Inl p)) \<Rightarrow> fst (snd (snd p))
        | Inr (Inr (Inr p)) \<Rightarrow> fst (snd (snd p)))") simp_all

section \<open>Stream driver and public entry points\<close>

definition moreBytesToRead :: "byte list \<Rightarrow> bool" where
  "moreBytesToRead src = (src \<noteq> [])"

text \<open>The loop of \<^verbatim>\<open>ManyObjCBOR2JSON\<close>.\<close>

fun manyObjLoop ::
      "lib \<Rightarrow> 'w writer \<Rightarrow> nat \<Rightarrow> byte list \<Rightarrow> 'w \<times> errlog \<Rightarrow>
       ((panic_value + unit) \<times> ('w \<times> errlog)) option" where
  "manyObjLoop L wr 0 src st = None"
| "manyObjLoop L wr (Suc f) src st =
     (if moreBytesToRead src then
        (case cbor2JsonOneObject L wr f src st of
           None \<Rightarrow> None
         | Some (Inl p, st1) \<Rightarrow> Some (Inl p, st1)
         | Some (Inr src1, st1) \<Rightarrow>
             manyObjLoop L wr f src1 (dstWrite wr [0x0A] ''Can't write'' st1))
      else Some (Inr (), st))"

text \<open>
  The fuel the entry points give their decoder.  It is enough for every input (lemmas
  \<open>cbor2JsonOneObject_fuel\<close> and \<open>manyObjLoop_fuel\<close> below), and more fuel changes no result.
\<close>

definition fuel :: "byte list \<Rightarrow> nat" where
  "fuel src = 3 * length src + 3"

text \<open>
  \<^verbatim>\<open>ManyObjCBOR2JSON\<close> with its deferred \<^verbatim>\<open>recover\<close>: a panic with a \<^verbatim>\<open>runtime.Error\<close> is
  raised again (\<open>Inl\<close>), any other panic value is returned as the error (\<open>Inr (Some e)\<close>);
  \<open>Inr None\<close> is the return of \<^verbatim>\<open>nil\<close>.
\<close>

definition ManyObjCBOR2JSON ::
    "lib \<Rightarrow> 'w writer \<Rightarrow> byte list \<Rightarrow> 'w \<times> errlog \<Rightarrow>
     ((panic_value + byte list option) \<times> ('w \<times> errlog)) option" where
  "ManyObjCBOR2JSON L wr src st =
     (case manyObjLoop L wr (fuel src) src st of
        None \<Rightarrow> None
      | Some (Inl (RuntimeError r), st1) \<Rightarrow> Some (Inl (RuntimeError r), st1)
      | Some (Inl (Error e), st1) \<Rightarrow> Some (Inr (Some e), st1)
      | Some (Inr _, st1) \<Rightarrow> Some (Inr None, st1))"

definition binaryFmt :: "byte list \<Rightarrow> bool" where
  "binaryFmt p = (if length p > 0 \<and> hd p > 0x7F then True else False)"

text \<open>
  The three entry points return \<open>Inl\<close> the panic that leaves them or \<open>Inr\<close> their result,
  and what they have handed to the logger.
\<close>

definition DecodeIfBinaryToString ::
    "lib \<Rightarrow> byte list \<Rightarrow> ((panic_value + byte list) \<times> errlog) option" where
  "DecodeIfBinaryToString L in' =
     (if binaryFmt in' then
        (case ManyObjCBOR2JSON L bufferWrite in' ([], []) of
           None \<Rightarrow> None
         | Some (Inl p, (b, lg)) \<Rightarrow> Some (Inl p, lg)
         | Some (Inr err, (b, lg)) \<Rightarrow>
             Some (Inr b, HandleErr err ''Can't convert many objects from CBOR to JSON'' lg))
      else Some (Inr in', []))"

definition DecodeObjectToStr ::
    "lib \<Rightarrow> byte list \<Rightarrow> ((panic_value + byte list) \<times> errlog) option" where
  "DecodeObjectToStr L in' =
     (if binaryFmt in' then
        (case cbor2JsonOneObject L bufferWrite (fuel in') in' ([], []) of
           None \<Rightarrow> None
         | Some (Inl p, (b, lg)) \<Rightarrow> Some (Inl p, lg)
         | Some (Inr _, (b, lg)) \<Rightarrow> Some (Inr b, lg))
      else Some (Inr in', []))"

definition DecodeIfBinaryToBytes ::
    "lib \<Rightarrow> byte list \<Rightarrow> ((panic_value + byte list) \<times> errlog) option" where
  "DecodeIfBinaryToBytes L in' =
     (if binaryFmt in' then
        (case ManyObjCBOR2JSON L bufferWrite in' ([], []) of
           None \<Rightarrow> None
         | Some (Inl p, (b, lg)) \<Rightarrow> Some (Inl p, lg)
         | Some (Inr err, (b, lg)) \<Rightarrow>
             Some (Inr b, HandleErr err ''Can't convert many objects from CBOR to JSON'' lg))
      else Some (Inr in', []))"

text \<open>
  An instance of the library for evaluation: the float patterns as the 4 and 8 bytes that
  follow the leading byte, the tag codes 260 to 263, and renderings that print nothing.
\<close>

definition stubLib :: lib where
  "stubLib = \<lparr>
     float32Nan = [0x7F, 0xC0, 0x00, 0x00],
     float32PosInfinity = [0x7F, 0x80, 0x00, 0x00],
     float32NegInfinity = [0xFF, 0x80, 0x00, 0x00],
     float64Nan = [0x7F, 0xF8, 0x00, 0x00, 0x00, 0x00, 0x00, 0x00],
     float64PosInfinity = [0x7F, 0xF0, 0x00, 0x00, 0x00, 0x00, 0x00, 0x00],
     float64NegInfinity = [0xFF, 0xF0, 0x00, 0x00, 0x00, 0x00, 0x00, 0x00],
     additionalTypeTagNetworkAddr = 260,
     additionalTypeTagNetworkPrefix = 261,
     additionalTypeEmbeddedJSON = 262,
     additionalTypeTagHexString = 263,
     appendFloat = (\<lambda>v bitSize. []),
     formatIntegerTime = (\<lambda>n. []),
     formatNanoTime = (\<lambda>v. []),
     hardwareAddrString = (\<lambda>octets. []),
     ipString = (\<lambda>octets. []),
     ipNetString = (\<lambda>octets pfxLen. [])
   \<rparr>"

section \<open>The encoder's side and the specification's renderings\<close>

text \<open>
  The paired encoder is not among the sources.  What the claims say about encodings is stated
  against the wire format of the spec: a head is the leading byte (major type in the top three
  bits) with the value either immediate in the low five bits (\<open>w = 0\<close>, values up to 23) or
  in \<open>w\<close> bytes, big-endian, after a leading byte whose low bits are 24, 25, 26, 27 for
  \<open>w = 1, 2, 4, 8\<close>.
\<close>

fun big_endian :: "nat \<Rightarrow> nat \<Rightarrow> byte list" where
  "big_endian 0 n = []"
| "big_endian (Suc k) n = big_endian k (n div 256) @ [of_nat (n mod 256)]"

definition widthCode :: "nat \<Rightarrow> byte" where
  "widthCode w = (if w = 1 then 24 else if w = 2 then 25 else if w = 4 then 26 else 27)"

definition fits :: "nat \<Rightarrow> nat \<Rightarrow> bool" where
  "fits w n = (if w = 0 then n \<le> 23 else w \<in> {1, 2, 4, 8} \<and> n < 256 ^ w)"

definition encodeHead :: "byte \<Rightarrow> nat \<Rightarrow> nat \<Rightarrow> byte list" where
  "encodeHead major w n =
     (if w = 0 then [major OR of_nat n] else (major OR widthCode w) # big_endian w n)"

definition isMajor :: "byte \<Rightarrow> bool" where
  "isMajor M = (M AND 0x1F = 0 \<and> M AND 0xE0 = M)"

text \<open>
  The wire encoding of a signed integer \<open>n\<close> in a head of width \<open>w\<close>: major type 0 with
  the magnitude for \<open>n \<ge> 0\<close>, major type 1 with \<open>m\<close> such that \<open>n = -1 - m\<close> for \<open>n < 0\<close>.
\<close>

definition encodeInt :: "nat \<Rightarrow> int \<Rightarrow> byte list" where
  "encodeInt w n =
     (if 0 \<le> n then encodeHead majorTypeUnsignedInt w (nat n)
      else encodeHead majorTypeNegativeInt w (nat (- 1 - n)))"

text \<open>
  The decimal literal of an integer, in the spec's words: correct sign, no leading zeros
  except the single digit of the literal 0.  \<open>plainDecimal ds m\<close>: \<open>ds\<close> is a non-empty
  string of digits, starts with the digit 0 only if it is that digit alone, and reads as the
  number \<open>m\<close>; \<open>decimalLiteral s n\<close>: a minus sign in front exactly for a negative \<open>n\<close>.
\<close>

definition isDigit :: "byte \<Rightarrow> bool" where
  "isDigit b = (48 \<le> b \<and> b \<le> 57)"

definition digitsValue :: "byte list \<Rightarrow> nat" where
  "digitsValue ds = foldl (\<lambda>a d. 10 * a + unat (d - 48)) 0 ds"

definition plainDecimal :: "byte list \<Rightarrow> nat \<Rightarrow> bool" where
  "plainDecimal ds m =
     (ds \<noteq> [] \<and> list_all isDigit ds \<and> (hd ds = 48 \<longrightarrow> ds = [48]) \<and> digitsValue ds = m)"

definition decimalLiteral :: "byte list \<Rightarrow> int \<Rightarrow> bool" where
  "decimalLiteral s n =
     (if n < 0 then s \<noteq> [] \<and> hd s = 45 \<and> plainDecimal (tl s) (nat (- n))
      else plainDecimal s (nat n))"

text \<open>Whether the next byte opens an array or a map (used to state facts on the dispatcher).\<close>

definition isArrayHead :: "byte list \<Rightarrow> bool" where
  "isArrayHead src = (src \<noteq> [] \<and> hd src AND maskOutAdditionalType = majorTypeArray)"

definition isMapHead :: "byte list \<Rightarrow> bool" where
  "isMapHead src = (src \<noteq> [] \<and> hd src AND maskOutAdditionalType = majorTypeMap)"

text \<open>
  Nested data, for the claims on arrays and maps: numbers, booleans and null as leaves, and
  arrays and maps over them, each with its encoding definite (a head with the count) or
  indefinite (closed by the break byte).  A map lists its items, key and value in turn, as
  the wire format counts them.  \<open>encode\<close> is the wire encoding with heads of minimal width;
  \<open>render\<close> is the JSON text of the spec: an array in brackets, a map in braces, the
  siblings joined by commas, each key joined to its value by a colon (a last key without a
  value is followed by its colon alone).
\<close>

datatype item = Num int | Bool bool | Null | Arr bool "item list" | Map bool "item list"

definition minWidth :: "nat \<Rightarrow> nat" where
  "minWidth n = (if n \<le> 23 then 0 else if n < 256 then 1 else if n < 65536 then 2
                 else if n < 4294967296 then 4 else 8)"

fun encode :: "item \<Rightarrow> byte list" where
  "encode (Num n) = encodeInt (minWidth (nat (if 0 \<le> n then n else - 1 - n))) n"
| "encode (Bool b) = [majorTypeSimpleAndFloat OR (if b then additionalTypeBoolTrue else additionalTypeBoolFalse)]"
| "encode Null = [majorTypeSimpleAndFloat OR additionalTypeNull]"
| "encode (Arr indefinite xs) =
     (if indefinite then
        [majorTypeArray OR additionalTypeInfiniteCount] @ concat (map encode xs) @
        [majorTypeSimpleAndFloat OR additionalTypeBreak]
      else encodeHead majorTypeArray (minWidth (length xs)) (length xs) @ concat (map encode xs))"
| "encode (Map indefinite xs) =
     (if indefinite then
        [majorTypeMap OR additionalTypeInfiniteCount] @ concat (map encode xs) @
        [majorTypeSimpleAndFloat OR additionalTypeBreak]
      else encodeHead majorTypeMap (minWidth (length xs)) (length xs) @ concat (map encode xs))"

fun joinWith :: "byte \<Rightarrow> byte list list \<Rightarrow> byte list" where
  "joinWith s [] = []"
| "joinWith s [x] = x"
| "joinWith s (x # y # ys) = x @ s # joinWith s (y # ys)"

fun pairs :: "byte list list \<Rightarrow> byte list list" where
  "pairs [] = []"
| "pairs [k] = [k @ [0x3A]]"
| "pairs (k # v # kvs) = (k @ 0x3A # v) # pairs kvs"

fun render :: "item \<Rightarrow> byte list" where
  "render (Num n) = Itoa n"
| "render (Bool b) = (if b then str ''true'' else str ''false'')"
| "render Null = str ''null''"
| "render (Arr indefinite xs) = 0x5B # joinWith 0x2C (map render xs) @ [0x5D]"
| "render (Map indefinite xs) = 0x7B # joinWith 0x2C (pairs (map render xs)) @ [0x7D]"

text \<open>
  \<open>wf\<close>: the numbers fit 64 bits and the counts fit a head; \<open>evenMaps\<close>: every map has a value
  for each key; \<open>arrays\<close> and \<open>maps\<close> count the arrays and the maps; \<open>depth\<close> is the depth of
  nesting, and \<open>linear\<close> says that no array or map has two arrays or maps among its items,
  which makes the item one nest of arrays and maps, \<open>depth\<close> deep, around leaves.
\<close>

fun wf :: "item \<Rightarrow> bool" where
  "wf (Num n) = (- (2 ^ 63) \<le> n \<and> n < 2 ^ 63)"
| "wf (Bool b) = True"
| "wf Null = True"
| "wf (Arr indefinite xs) = (length xs < 2 ^ 63 \<and> list_all wf xs)"
| "wf (Map indefinite xs) = (length xs < 2 ^ 63 \<and> list_all wf xs)"

fun evenMaps :: "item \<Rightarrow> bool" where
  "evenMaps (Arr indefinite xs) = list_all evenMaps xs"
| "evenMaps (Map indefinite xs) = (even (length xs) \<and> list_all evenMaps xs)"
| "evenMaps _ = True"

fun arrays :: "item \<Rightarrow> nat" where
  "arrays (Arr indefinite xs) = 1 + sum_list (map arrays xs)"
| "arrays (Map indefinite xs) = sum_list (map arrays xs)"
| "arrays _ = 0"

fun maps :: "item \<Rightarrow> nat" where
  "maps (Arr indefinite xs) = sum_list (map maps xs)"
| "maps (Map indefinite xs) = 1 + sum_list (map maps xs)"
| "maps _ = 0"

fun depth :: "item \<Rightarrow> nat" where
  "depth (Arr indefinite xs) = 1 + foldr max (map depth xs) 0"
| "depth (Map indefinite xs) = 1 + foldr max (map depth xs) 0"
| "depth _ = 0"

fun isContainer :: "item \<Rightarrow> bool" where
  "isContainer (Arr indefinite xs) = True"
| "isContainer (Map indefinite xs) = True"
| "isContainer _ = False"

fun linear :: "item \<Rightarrow> bool" where
  "linear (Arr indefinite xs) = (length (filter isContainer xs) \<le> 1 \<and> list_all linear xs)"
| "linear (Map indefinite xs) = (length (filter isContainer xs) \<le> 1 \<and> list_all linear xs)"
| "linear _ = True"

text \<open>
  \<open>decodesTo L e r\<close>: with enough fuel the dispatcher, on \<open>e\<close> followed by any input, reads
  exactly \<open>e\<close> and appends \<open>r\<close> to the buffer.
\<close>

definition decodesTo :: "lib \<Rightarrow> byte list \<Rightarrow> byte list \<Rightarrow> bool" where
  "decodesTo L e r =
     (\<exists>f0. \<forall>f\<ge>f0. \<forall>rest b lg.
        cbor2JsonOneObject L bufferWrite f (e @ rest) (b, lg) = Some (Inr rest, (b @ r, lg)))"

definition breakByte :: byte where
  "breakByte = majorTypeSimpleAndFloat OR additionalTypeBreak"

subsection \<open>Escaped text of a string payload\<close>

text \<open>
  What the spec says of a UTF-8 string payload, as a function of the payload alone.  A plain
  byte is printable ASCII other than the double quote and the backslash, and stands for
  itself.  A byte from 0x80 on starts either a valid multi-byte encoding, which is kept, or
  nothing valid, in which case this one byte becomes the six characters \<^verbatim>\<open>\ufffd\<close>.  Every
  other byte is escaped: two characters for the double quote, the backslash, backspace, form
  feed, newline, carriage return and tab, and \<^verbatim>\<open>\u00\<close> with two lower-case hex digits for
  the rest.
\<close>

definition plainByte :: "byte \<Rightarrow> bool" where
  "plainByte b = (0x20 \<le> b \<and> b \<le> 0x7E \<and> b \<noteq> 0x22 \<and> b \<noteq> 0x5C)"

definition hexDigit :: "nat \<Rightarrow> byte" where
  "hexDigit d = (if d < 10 then 48 + of_nat d else 87 + of_nat d)"

definition jsonEscape :: "byte \<Rightarrow> byte list" where
  "jsonEscape b =
     (if b = 0x22 then [0x5C, 0x22]
      else if b = 0x5C then [0x5C, 0x5C]
      else if b = 0x08 then [0x5C, 0x62]
      else if b = 0x0C then [0x5C, 0x66]
      else if b = 0x0A then [0x5C, 0x6E]
      else if b = 0x0D then [0x5C, 0x72]
      else if b = 0x09 then [0x5C, 0x74]
      else [0x5C, 0x75, 0x30, 0x30, hexDigit (unat b div 16), hexDigit (unat b mod 16)])"

definition invalidAt :: "byte list \<Rightarrow> bool" where
  "invalidAt s = (fst (DecodeRuneInString s) = RuneError \<and> snd (DecodeRuneInString s) = 1)"

function escapeJSON :: "byte list \<Rightarrow> byte list" where
  "escapeJSON [] = []"
| "escapeJSON (b # bs) =
     (if b \<ge> 0x80 then
        (if invalidAt (b # bs) then [0x5C, 0x75, 0x66, 0x66, 0x66, 0x64] @ escapeJSON bs
         else take (snd (DecodeRuneInString (b # bs))) (b # bs) @
              escapeJSON (drop (snd (DecodeRuneInString (b # bs))) (b # bs)))
      else if plainByte b then b # escapeJSON bs
      else jsonEscape b @ escapeJSON bs)"
  by pat_completeness auto
termination
proof (relation "measure length")
  fix b :: byte and bs
  have "0 < snd (DecodeRuneInString (b # bs))"
    by (rule DecodeRuneInString_size_pos) simp
  then show "(drop (snd (DecodeRuneInString (b # bs))) (b # bs), b # bs) \<in> measure length"
    by simp
qed auto

subsection \<open>Floats by their IEEE-754 fields\<close>

text \<open>
  A float on the wire is the byte 0xFA and four bytes, or 0xFB and eight bytes: the bits of
  an IEEE-754 single or double, big-endian.  The sign is the top bit; then come 8 (11)
  exponent bits and 23 (52) fraction bits.  All exponent bits set is a NaN when the
  fraction is not zero and an infinity of the sign bit's sign when it is zero; every other
  pattern is a finite number.
\<close>

definition bits32 :: "byte list \<Rightarrow> 32 word" where
  "bits32 pb = foldl (\<lambda>n b. n * 256 + ucast b) 0 pb"

definition bits64 :: "byte list \<Rightarrow> 64 word" where
  "bits64 pb = foldl (\<lambda>n b. n * 256 + ucast b) 0 pb"

definition exponent32 :: "32 word \<Rightarrow> 32 word" where "exponent32 n = drop_bit 23 n AND 0xFF"
definition fraction32 :: "32 word \<Rightarrow> 32 word" where "fraction32 n = take_bit 23 n"
definition exponent64 :: "64 word \<Rightarrow> 64 word" where "exponent64 n = drop_bit 52 n AND 0x7FF"
definition fraction64 :: "64 word \<Rightarrow> 64 word" where "fraction64 n = take_bit 52 n"

text \<open>
  The six patterns that \<^verbatim>\<open>decodeFloat\<close> compares the payload with are constants of
  \<^verbatim>\<open>cbor.go\<close>, which is not among the sources.  What is asked of them: a constant that has
  the length of a payload (and so can be equal to one) is a pattern of the class it is named
  for, the two infinities the only pattern of theirs.  A constant of another length never
  equals a payload.
\<close>

definition floatPatternsOK :: "lib \<Rightarrow> bool" where
  "floatPatternsOK L =
     ((length (float32Nan L) = 4 \<longrightarrow>
         exponent32 (bits32 (float32Nan L)) = 0xFF \<and> fraction32 (bits32 (float32Nan L)) \<noteq> 0) \<and>
      (length (float32PosInfinity L) = 4 \<longrightarrow> bits32 (float32PosInfinity L) = 0x7F800000) \<and>
      (length (float32NegInfinity L) = 4 \<longrightarrow> bits32 (float32NegInfinity L) = 0xFF800000) \<and>
      (length (float64Nan L) = 8 \<longrightarrow>
         exponent64 (bits64 (float64Nan L)) = 0x7FF \<and> fraction64 (bits64 (float64Nan L)) \<noteq> 0) \<and>
      (length (float64PosInfinity L) = 8 \<longrightarrow>
         bits64 (float64PosInfinity L) = 0x7FF0000000000000) \<and>
      (length (float64NegInfinity L) = 8 \<longrightarrow>
         bits64 (float64NegInfinity L) = 0xFFF0000000000000))"

text \<open>
  The text the spec has for a pattern: the quoted names of the three special classes, and
  for a finite number the rendering of \<^verbatim>\<open>strconv.AppendFloat\<close> at the precision of the wire
  width.
\<close>

definition renderFloat32 :: "lib \<Rightarrow> 32 word \<Rightarrow> byte list" where
  "renderFloat32 L n =
     (if exponent32 n = 0xFF then
        (if fraction32 n \<noteq> 0 then 0x22 # str ''NaN'' @ [0x22]
         else if bit n 31 then 0x22 # str ''-Inf'' @ [0x22]
         else 0x22 # str ''+Inf'' @ [0x22])
      else appendFloat L (Float32frombits n) 32)"

definition renderFloat64 :: "lib \<Rightarrow> 64 word \<Rightarrow> byte list" where
  "renderFloat64 L n =
     (if exponent64 n = 0x7FF then
        (if fraction64 n \<noteq> 0 then 0x22 # str ''NaN'' @ [0x22]
         else if bit n 63 then 0x22 # str ''-Inf'' @ [0x22]
         else 0x22 # str ''+Inf'' @ [0x22])
      else appendFloat L (Float64frombits n) 64)"

subsection \<open>Truncated input\<close>

text \<open>
  An input that ends in the middle of a length or value field.  \<open>cutHead h\<close>: the leading
  byte \<open>h\<close> announces a field of 1, 2, 4 or 8 bytes that the decoder reads: the value of an
  integer, the length of a string, the count of an array or a map (low bits 24 to 27 under
  the major types 0 to 5), the 2-byte number of a tag (0xD9), the four or eight bytes of a
  float (0xFA, 0xFB).  \<open>Cut h field\<close> is such a byte with a field that is too short, at the
  end of the input.  It may be an element of an array or a map, definite (with a count
  \<open>n\<close> that promises more than the elements there) or indefinite, after the complete
  elements \<open>xs\<close>; and so on outwards.
\<close>

definition fieldWidth :: "byte \<Rightarrow> nat" where
  "fieldWidth h = (if h AND 0x1F = 24 then 1 else if h AND 0x1F = 25 then 2
                   else if h AND 0x1F = 26 then 4 else 8)"

definition cutHead :: "byte \<Rightarrow> bool" where
  "cutHead h = ((h AND 0x1F \<in> {24, 25, 26, 27} \<and>
                 h AND 0xE0 \<in> {0x00, 0x20, 0x40, 0x60, 0x80, 0xA0}) \<or>
                h = 0xD9 \<or> h = 0xFA \<or> h = 0xFB)"

definition readMsg :: "nat \<Rightarrow> byte list" where
  "readMsg w = str ''tried to Read '' @ Itoa (int w) @ str '' Bytes.. But hit end of file''"

datatype trunc =
    Cut byte "byte list"
  | InArr bool nat "item list" trunc
  | InMap bool nat "item list" trunc

fun tencode :: "trunc \<Rightarrow> byte list" where
  "tencode (Cut h field) = h # field"
| "tencode (InArr indefinite n xs t) =
     (if indefinite then [majorTypeArray OR additionalTypeInfiniteCount]
      else encodeHead majorTypeArray (minWidth n) n) @ concat (map encode xs) @ tencode t"
| "tencode (InMap indefinite n xs t) =
     (if indefinite then [majorTypeMap OR additionalTypeInfiniteCount]
      else encodeHead majorTypeMap (minWidth n) n) @ concat (map encode xs) @ tencode t"

fun twf :: "trunc \<Rightarrow> bool" where
  "twf (Cut h field) = (cutHead h \<and> length field < fieldWidth h)"
| "twf (InArr indefinite n xs t) =
     (list_all wf xs \<and> twf t \<and> (indefinite \<or> (length xs < n \<and> n < 2 ^ 63)))"
| "twf (InMap indefinite n xs t) =
     (list_all wf xs \<and> twf t \<and> (indefinite \<or> (length xs < n \<and> n < 2 ^ 63)))"

text \<open>
  The message of the fault, and the text that is written before it: what is opened, and
  each complete element with the separator that follows it (in a map a colon after a key, a
  comma after a value).  An array writes its bracket before it reads its head, a map its
  brace after it has read its count.
\<close>

fun tmsg :: "trunc \<Rightarrow> byte list" where
  "tmsg (Cut h field) = readMsg (fieldWidth h)"
| "tmsg (InArr indefinite n xs t) = tmsg t"
| "tmsg (InMap indefinite n xs t) = tmsg t"

fun mapPartial :: "bool \<Rightarrow> byte list list \<Rightarrow> byte list" where
  "mapPartial k [] = []"
| "mapPartial k (x # xs) = x @ (if k then 0x3A else 0x2C) # mapPartial (\<not> k) xs"

fun tpartial :: "trunc \<Rightarrow> byte list" where
  "tpartial (Cut h field) = (if h AND 0xE0 = 0x80 then [0x5B] else [])"
| "tpartial (InArr indefinite n xs t) =
     0x5B # concat (map (\<lambda>x. render x @ [0x2C]) xs) @ tpartial t"
| "tpartial (InMap indefinite n xs t) = 0x7B # mapPartial True (map render xs) @ tpartial t"

text \<open>
  \<open>faultsWith L e p out\<close>: with enough fuel the dispatcher, on the input \<open>e\<close>, panics with
  \<open>p\<close> after it has appended \<open>out\<close> to the buffer.
\<close>

definition faultsWith :: "lib \<Rightarrow> byte list \<Rightarrow> panic_value \<Rightarrow> byte list \<Rightarrow> bool" where
  "faultsWith L e p out =
     (\<exists>f0. \<forall>f\<ge>f0. \<forall>b lg.
        cbor2JsonOneObject L bufferWrite f e (b, lg) = Some (Inl p, (b @ out, lg)))"

subsection \<open>Sinks that fail\<close>

text \<open>
  A sink is any function from its state and the bytes of a write to its next state and an
  optional error.  \<open>rejectWrite\<close> is the sink that fails on every write, with the bytes
  themselves as the error: the logger of a run on it holds every write of the run, in
  order, as the pair of the bytes and the message of the call.  \<open>replay wr st tr\<close> performs
  the writes \<open>tr\<close> on the sink \<open>wr\<close> from the state \<open>st\<close>, each with the \<^verbatim>\<open>HandleErr\<close> that
  follows it.
\<close>

definition rejectWrite :: "unit writer" where
  "rejectWrite u p = ((), Some p)"

definition replay :: "'w writer \<Rightarrow> 'w \<times> errlog \<Rightarrow> errlog \<Rightarrow> 'w \<times> errlog" where
  "replay wr st tr = foldl (\<lambda>s (p, msg). dstWrite wr p msg s) st tr"

section \<open>Evaluation checks\<close>


lemma Itoa_examples:
  "Itoa 0 = str ''0''" "Itoa 1234 = str ''1234''" "Itoa (- 501) = str ''-501''"
  by (simp_all add: Itoa_def digits.simps str_def)

lemma decodeInteger_examples:
  "decodeInteger [0x17, 0xAA] = Inr (23, [0xAA])"
  "decodeInteger [0x19, 0x01, 0x00] = Inr (256, [])"
  "decodeInteger [0x38, 0x63] = Inr (- 100, [])"
  "decodeInteger [0x1A, 0x01] = Inl (Error (str ''tried to Read 4 Bytes.. But hit end of file''))"
  by (simp_all add: decodeInteger_def decodeIntAdditionalType_def readByte_def readNBytes_def maxAlloc_def
      maskOutAdditionalType_def maskOutMajorType_def majorTypeUnsignedInt_def
      majorTypeNegativeInt_def additionalTypeIntUint8_def additionalTypeIntUint16_def
      additionalTypeIntUint32_def additionalTypeIntUint64_def Itoa_def digits.simps str_def)

section \<open>Basic facts\<close>

lemmas const_defs = maskOutAdditionalType_def maskOutMajorType_def majorTypeUnsignedInt_def
  majorTypeNegativeInt_def majorTypeByteString_def majorTypeUtf8String_def majorTypeArray_def
  majorTypeMap_def majorTypeTags_def majorTypeSimpleAndFloat_def
  additionalTypeIntUint8_def additionalTypeIntUint16_def
  additionalTypeIntUint32_def additionalTypeIntUint64_def additionalTypeBoolFalse_def
  additionalTypeBoolTrue_def additionalTypeNull_def additionalTypeFloat16_def
  additionalTypeFloat32_def additionalTypeFloat64_def additionalTypeBreak_def
  additionalTypeTimestamp_def additionalTypeInfiniteCount_def

lemma bit_224: "n < 8 \<Longrightarrow> bit (224::int) n \<longleftrightarrow> n = 5 \<or> n = 6 \<or> n = 7"
proof -
  assume "n < 8"
  then have "n \<in> {0,1,2,3,4,5,6,7}" by auto
  then show ?thesis by (elim insertE emptyE; simp)
qed

lemma and_E0: "(pb::byte) AND 0xE0 = push_bit 5 (drop_bit 5 pb)"
  by (rule bit_word_eqI) (auto simp: bit_simps bit_224)

lemma drop_bit_5_cases: "drop_bit 5 (pb::byte) \<in> {0,1,2,3,4,5,6,7}"
proof -
  have "unat pb < 256" using unsigned_less [of pb, where 'a=nat] by simp
  then have "unat (drop_bit 5 pb) < 8"
    by (simp add: unat_drop_bit_eq drop_bit_eq_div unat_div div_less_iff_less_mult)
  then have "unat (drop_bit 5 pb) \<in> {0,1,2,3,4,5,6,7}" by auto
  then have "of_nat (unat (drop_bit 5 pb)) \<in> {0::byte,1,2,3,4,5,6,7}"
    by (elim insertE emptyE; simp)
  then show ?thesis by simp
qed

text \<open>Every leading byte has one of the eight major types.\<close>

lemma major_cases:
  "(pb::byte) AND 0xE0 \<in> {0x00, 0x20, 0x40, 0x60, 0x80, 0xA0, 0xC0, 0xE0}"
  using drop_bit_5_cases [of pb] unfolding and_E0 by (elim insertE emptyE; simp)

section \<open>Format detection and pass-through\<close>

text \<open>
  Claim C3.  For every input that is empty or whose first byte is at most 0x7F, each of
  \<^verbatim>\<open>DecodeIfBinaryToString\<close>, \<^verbatim>\<open>DecodeObjectToStr\<close> and \<^verbatim>\<open>DecodeIfBinaryToBytes\<close> returns the
  input unchanged, byte for byte: no decoder runs (the result does not depend on the fuel or
  on the library), nothing is handed to the logger and nothing panics.
\<close>

theorem C3_passthrough:
  "in' = [] \<or> hd in' \<le> 0x7F \<Longrightarrow>
     DecodeIfBinaryToString L in' = Some (Inr in', []) \<and>
     DecodeObjectToStr L in' = Some (Inr in', []) \<and>
     DecodeIfBinaryToBytes L in' = Some (Inr in', [])"
  by (auto simp: DecodeIfBinaryToString_def DecodeObjectToStr_def DecodeIfBinaryToBytes_def
      binaryFmt_def)

text \<open>The witness is the JSON text \<^verbatim>\<open>{"a":1}\<close>, whose first byte is 0x7B.\<close>

theorem C3_passthrough_witness:
  "DecodeIfBinaryToString stubLib [0x7B, 0x22, 0x61, 0x22, 0x3A, 0x31, 0x7D]
     = Some (Inr [0x7B, 0x22, 0x61, 0x22, 0x3A, 0x31, 0x7D], []) \<and>
   DecodeObjectToStr stubLib [0x7B, 0x22, 0x61, 0x22, 0x3A, 0x31, 0x7D]
     = Some (Inr [0x7B, 0x22, 0x61, 0x22, 0x3A, 0x31, 0x7D], []) \<and>
   DecodeIfBinaryToBytes stubLib [0x7B, 0x22, 0x61, 0x22, 0x3A, 0x31, 0x7D]
     = Some (Inr [0x7B, 0x22, 0x61, 0x22, 0x3A, 0x31, 0x7D], [])"
  using C3_passthrough [of "[0x7B, 0x22, 0x61, 0x22, 0x3A, 0x31, 0x7D]" stubLib] by simp

text \<open>
  Claim C1, as stated: \<^verbatim>\<open>DecodeObjectToStr\<close> on the five bytes 0x64 \<^verbatim>\<open>t e s t\<close> returns the
  text \<^verbatim>\<open>"test"\<close> in double quotes.  It does not: 0x64 is not above 0x7F, so \<^verbatim>\<open>binaryFmt\<close>
  takes the input for text and the entry point returns it as it is.
\<close>

theorem C1_counterexample:
  "DecodeObjectToStr stubLib (0x64 # str ''test'') \<noteq> Some (Inr (0x22 # str ''test'' @ [0x22]), [])"
  by (simp add: DecodeObjectToStr_def binaryFmt_def str_def)

text \<open>
  Claim C1, amended.  On the five bytes 0x64 \<^verbatim>\<open>t e s t\<close> the entry point
  \<^verbatim>\<open>DecodeObjectToStr\<close> returns these five bytes unchanged (the text \<^verbatim>\<open>dtest\<close>); the
  dispatcher \<^verbatim>\<open>cbor2JsonOneObject\<close>, which the entry point calls only for a first byte above
  0x7F, reads all five bytes and writes the six characters \<^verbatim>\<open>"test"\<close> (with any fuel but 0).
\<close>

theorem C1_test_string:
  "DecodeObjectToStr L (0x64 # str ''test'') = Some (Inr (0x64 # str ''test''), []) \<and>
   cbor2JsonOneObject L bufferWrite (Suc f) (0x64 # str ''test'') ([], [])
     = Some (Inr [], (0x22 # str ''test'' @ [0x22], []))"
  by (simp add: DecodeObjectToStr_def binaryFmt_def const_defs decodeUTF8String_def
      readByte_def decodeIntAdditionalType_def readNBytes_def maxAlloc_def needsEncoding_def str_def
      dstWrite_def bufferWrite_def HandleErr_def)

section \<open>Heads and integers\<close>

lemma length_big_endian [simp]: "length (big_endian k n) = k"
  by (induction k arbitrary: n) auto

lemma ucast_of_nat_byte: "(ucast (of_nat m :: byte) :: 'a::len word) = of_nat (m mod 256)"
proof -
  have "(ucast (of_nat m :: byte) :: 'a word) = of_nat (unat (of_nat m :: byte))"
    by simp
  then show ?thesis by (simp add: unat_of_nat)
qed

lemma foldl_big_endian:
  "foldl (\<lambda>val b. val * 256 + ucast b) (acc :: 'a::len word) (big_endian k n)
     = acc * 256 ^ k + of_nat (n mod 256 ^ k)"
proof (induction k arbitrary: n)
  case 0
  then show ?case by simp
next
  case (Suc k)
  have split: "n mod 256 ^ Suc k = 256 * (n div 256 mod 256 ^ k) + n mod 256"
    by (simp add: mod_mult2_eq)
  have "foldl (\<lambda>val b. val * 256 + ucast b) acc (big_endian (Suc k) n)
          = (acc * 256 ^ k + of_nat (n div 256 mod 256 ^ k)) * 256 + of_nat (n mod 256)"
    by (simp add: Suc.IH ucast_of_nat_byte)
  also have "\<dots> = acc * 256 ^ Suc k + of_nat (n mod 256 ^ Suc k)"
    unfolding split by (simp add: algebra_simps)
  finally show ?case .
qed

lemma sint_of_nat_64: "n < 2 ^ 63 \<Longrightarrow> sint (of_nat n :: 64 word) = int n"
  by (simp add: signed_of_nat signed_take_bit_int_eq_self)

lemma sint_neg_64: "m < 2 ^ 63 \<Longrightarrow> sint (- 1 - of_nat m :: 64 word) = - 1 - int m"
  by (simp add: sint_word_diff sint_of_nat_64 signed_take_bit_int_eq_self)

lemma low_and_E0: "(x::byte) < 32 \<Longrightarrow> x AND 0xE0 = 0"
proof -
  assume "x < 32"
  then have "unat x < 32" by (simp add: word_less_nat_alt)
  then have "unat (drop_bit 5 x) = 0"
    by (simp add: unat_drop_bit_eq drop_bit_eq_div unat_div)
  then have "drop_bit 5 x = 0" by (simp add: unat_eq_0)
  then show ?thesis by (simp add: and_E0)
qed

lemma low_and_1F: "(x::byte) < 32 \<Longrightarrow> x AND 0x1F = x"
proof -
  assume "x < 32"
  then have "x < 2 ^ 5" by simp
  then have "x AND mask 5 = x" by (rule less_mask_eq)
  then show ?thesis by (simp add: mask_eq_exp_minus_1)
qed

lemma or_head:
  "(x::byte) < 32 \<Longrightarrow> M AND 0x1F = 0 \<Longrightarrow> M AND 0xE0 = M \<Longrightarrow>
     (M OR x) AND 0xE0 = M \<and> (M OR x) AND 0x1F = x"
  by (simp add: bit.conj_disj_distrib2 low_and_E0 low_and_1F)

lemma of_nat_small: "n \<le> 23 \<Longrightarrow> (of_nat n :: byte) \<le> 23"
  by (simp add: word_le_nat_alt unat_of_nat)

lemma of_nat_small': "n \<le> 23 \<Longrightarrow> (of_nat n :: byte) < 32"
  by (simp add: word_less_nat_alt unat_of_nat)

lemma ucast_small: "n \<le> 23 \<Longrightarrow> (ucast (of_nat n :: byte) :: 64 word) = of_nat n"
  by (simp add: ucast_of_nat_byte)

lemma widthCode_props:
  "w \<in> {1, 2, 4, 8} \<Longrightarrow> widthCode w < 32 \<and> \<not> widthCode w \<le> 23 \<and>
     widthCode w \<in> {additionalTypeIntUint8, additionalTypeIntUint16,
                      additionalTypeIntUint32, additionalTypeIntUint64}"
  by (auto simp: widthCode_def const_defs)

lemma decodeIntAdditionalType_big_endian:
  assumes "w \<in> {1, 2, 4, 8}" "n < 256 ^ w"
  shows "decodeIntAdditionalType (big_endian w n @ rest) (widthCode w) = Inr (of_nat n, rest)"
proof -
  have r: "readNBytes (big_endian w n @ rest) (int w) = Inr (big_endian w n, rest)"
    using assms(1) by (auto simp: readNBytes_def maxAlloc_def)
  have v: "foldl (\<lambda>val b. val * 256 + ucast b) (0::64 word) (big_endian w n) = of_nat n"
    using assms(2) by (simp add: foldl_big_endian)
  from assms(1) consider "w = 1" | "w = 2" | "w = 4" | "w = 8" by auto
  then show ?thesis
  proof cases
    case 1
    with r v show ?thesis by (simp add: decodeIntAdditionalType_def widthCode_def const_defs)
  next
    case 2
    with r v show ?thesis by (simp add: decodeIntAdditionalType_def widthCode_def const_defs)
  next
    case 3
    with r v show ?thesis by (simp add: decodeIntAdditionalType_def widthCode_def const_defs)
  next
    case 4
    with r v show ?thesis by (simp add: decodeIntAdditionalType_def widthCode_def const_defs)
  qed
qed

text \<open>Reading a head: the major type, the minor, and the value that follows.\<close>

lemma decode_encodeHead:
  assumes "isMajor M" "fits w n"
  shows "\<exists>pb src1. readByte (encodeHead M w n @ rest) = Inr (pb, src1) \<and>
           pb AND maskOutAdditionalType = M \<and>
           decodeIntAdditionalType src1 (pb AND maskOutMajorType) = Inr (of_nat n, rest)"
proof (cases "w = 0")
  case True
  with assms have n: "n \<le> 23" by (simp add: fits_def)
  from assms(1) of_nat_small' [OF n]
  have "(M OR of_nat n) AND 0xE0 = M \<and> (M OR of_nat n) AND 0x1F = of_nat n"
    by (intro or_head) (simp_all add: isMajor_def)
  with True n show ?thesis
    by (simp add: encodeHead_def readByte_def const_defs decodeIntAdditionalType_def
        of_nat_small ucast_small)
next
  case False
  with assms have w: "w \<in> {1, 2, 4, 8}" and n: "n < 256 ^ w" by (simp_all add: fits_def)
  from assms(1) widthCode_props [OF w]
  have h: "(M OR widthCode w) AND 0xE0 = M \<and> (M OR widthCode w) AND 0x1F = widthCode w"
    by (intro or_head) (simp_all add: isMajor_def)
  from False h decodeIntAdditionalType_big_endian [OF w n, of rest] show ?thesis
    by (simp add: encodeHead_def readByte_def maskOutAdditionalType_def maskOutMajorType_def)
qed

lemma digit_byte: "d < 10 \<Longrightarrow> unat (48 + of_nat d :: byte) = 48 + d"
  by (simp add: unat_word_ariths unat_of_nat)

lemma digit_isDigit: "d < 10 \<Longrightarrow> isDigit (48 + of_nat d)"
  by (simp add: isDigit_def word_le_nat_alt digit_byte)

lemma digit_value: "d < 10 \<Longrightarrow> unat (of_nat d :: byte) = d"
proof -
  assume "d < 10"
  moreover have "unat (of_nat d :: byte) = d mod 2 ^ 8" by (simp add: unat_of_nat)
  ultimately show ?thesis by simp
qed

lemma digit_zero: "d < 10 \<Longrightarrow> (48 + of_nat d :: byte) = 48 \<longleftrightarrow> d = 0"
proof -
  assume d: "d < 10"
  have "(48 + of_nat d :: byte) = 48 \<longleftrightarrow> unat (48 + of_nat d :: byte) = unat (48 :: byte)"
    by (simp only: word_unat_eq_iff)
  with digit_byte [OF d] show ?thesis by simp
qed

lemma plainDecimal_digits: "plainDecimal (digits n) n"
proof (induction n rule: digits.induct)
  case (1 n)
  show ?case
  proof (cases "n < 10")
    case True
    then show ?thesis
      by (simp add: digits.simps [of n] plainDecimal_def digit_isDigit digitsValue_def
          digit_value digit_zero)
  next
    case False
    with 1 have IH: "plainDecimal (digits (n div 10)) (n div 10)" by simp
    have d: "n mod 10 < 10" by simp
    from IH have ne: "digits (n div 10) \<noteq> []" by (simp add: plainDecimal_def)
    have "hd (digits (n div 10)) \<noteq> 48"
    proof
      assume "hd (digits (n div 10)) = 48"
      with IH have "digits (n div 10) = [48]" by (simp add: plainDecimal_def)
      with IH have "n div 10 = 0" by (simp add: plainDecimal_def digitsValue_def)
      with False show False by simp
    qed
    with IH ne d False show ?thesis
      by (simp add: digits.simps [of n] plainDecimal_def digit_isDigit digitsValue_def
          digit_value)
  qed
qed

lemma decimalLiteral_Itoa: "decimalLiteral (Itoa n) n"
  by (simp add: decimalLiteral_def Itoa_def plainDecimal_digits)

lemma isMajor_consts:
  "isMajor majorTypeUnsignedInt" "isMajor majorTypeNegativeInt" "isMajor majorTypeByteString"
  "isMajor majorTypeUtf8String" "isMajor majorTypeArray" "isMajor majorTypeMap"
  by (simp_all add: isMajor_def const_defs)

lemma decodeInteger_encodeInt:
  assumes "- (2 ^ 63) \<le> n" "n < 2 ^ 63" "fits w (nat (if 0 \<le> n then n else - 1 - n))"
  shows "\<exists>pb t val. encodeInt w n @ rest = pb # t \<and>
           (pb AND maskOutAdditionalType = majorTypeUnsignedInt \<or>
            pb AND maskOutAdditionalType = majorTypeNegativeInt) \<and>
           decodeInteger (encodeInt w n @ rest) = Inr (val, rest) \<and> sint val = n"
proof (cases "0 \<le> n")
  case True
  with assms have f: "fits w (nat n)" by simp
  from decode_encodeHead [OF isMajor_consts(1) f, of rest]
  obtain pb src1 where r: "readByte (encodeHead majorTypeUnsignedInt w (nat n) @ rest) = Inr (pb, src1)"
    and m: "pb AND maskOutAdditionalType = majorTypeUnsignedInt"
    and d: "decodeIntAdditionalType src1 (pb AND maskOutMajorType) = Inr (of_nat (nat n), rest)"
    by blast
  from r have e: "encodeHead majorTypeUnsignedInt w (nat n) @ rest = pb # src1"
    by (auto simp: readByte_def split: list.splits)
  have "sint (of_nat (nat n) :: 64 word) = n"
    using True assms(2) sint_of_nat_64 [of "nat n"] by (simp add: nat_less_iff)
  with True r m d e show ?thesis
    by (simp add: encodeInt_def decodeInteger_def majorTypeUnsignedInt_def
        majorTypeNegativeInt_def)
next
  case False
  with assms have f: "fits w (nat (- 1 - n))" by simp
  from decode_encodeHead [OF isMajor_consts(2) f, of rest]
  obtain pb src1 where r: "readByte (encodeHead majorTypeNegativeInt w (nat (- 1 - n)) @ rest) = Inr (pb, src1)"
    and m: "pb AND maskOutAdditionalType = majorTypeNegativeInt"
    and d: "decodeIntAdditionalType src1 (pb AND maskOutMajorType) = Inr (of_nat (nat (- 1 - n)), rest)"
    by blast
  from r have e: "encodeHead majorTypeNegativeInt w (nat (- 1 - n)) @ rest = pb # src1"
    by (auto simp: readByte_def split: list.splits)
  have "sint (- 1 - of_nat (nat (- 1 - n)) :: 64 word) = n"
    using False assms(1) sint_neg_64 [of "nat (- 1 - n)"] by (simp add: nat_less_iff)
  with False r m d e show ?thesis
    by (simp add: encodeInt_def decodeInteger_def majorTypeUnsignedInt_def
        majorTypeNegativeInt_def)
qed

lemma dstWrite_buffer [simp]: "dstWrite bufferWrite p msg (b, lg) = (b @ p, lg)"
  by (simp add: dstWrite_def bufferWrite_def HandleErr_def)

lemma cbor2JsonOneObject_integer:
  assumes "- (2 ^ 63) \<le> n" "n < 2 ^ 63" "fits w (nat (if 0 \<le> n then n else - 1 - n))"
  shows "cbor2JsonOneObject L wr (Suc f) (encodeInt w n @ rest) st
           = Some (Inr rest, dstWrite wr (Itoa n) ''Can't write'' st)"
proof -
  from decodeInteger_encodeInt [OF assms, of rest]
  obtain pb t val where e: "encodeInt w n @ rest = pb # t"
    and m: "pb AND maskOutAdditionalType = majorTypeUnsignedInt \<or>
            pb AND maskOutAdditionalType = majorTypeNegativeInt"
    and d: "decodeInteger (pb # t) = Inr (val, rest)" and v: "sint val = n"
    by auto
  have "cbor2JsonOneObject L wr (Suc f) (pb # t) st
          = Some (Inr rest, dstWrite wr (Itoa n) ''Can't write'' st)"
    using m d v by (auto simp: Let_def)
  with e show ?thesis by (simp del: cbor2JsonOneObject.simps)
qed

text \<open>
  Claim C5.  For every signed integer \<open>n\<close> representable in 64 bits and every head that
  can hold its magnitude (immediate for values up to 23, or 1, 2, 4 or 8 bytes big-endian),
  the dispatcher, on the wire encoding of \<open>n\<close> followed by any bytes \<open>rest\<close>, reads exactly
  the encoding and hands \<open>Itoa n\<close> to the sink in one write; with a buffer as the sink the
  buffer gains exactly these bytes.  \<open>Itoa n\<close> is the decimal literal of \<open>n\<close>: a minus sign
  exactly for \<open>n < 0\<close>, then digits without a leading zero (but for the literal 0), reading
  as the magnitude of \<open>n\<close>.  (\<^verbatim>\<open>int\<close> has 64 bits, as on the platforms the library targets.)
\<close>

theorem C5_integer:
  assumes "- (2 ^ 63) \<le> n" "n < 2 ^ 63" "fits w (nat (if 0 \<le> n then n else - 1 - n))"
  shows "cbor2JsonOneObject L wr (Suc f) (encodeInt w n @ rest) st
           = Some (Inr rest, dstWrite wr (Itoa n) ''Can't write'' st) \<and>
         cbor2JsonOneObject L bufferWrite (Suc f) (encodeInt w n @ rest) (b, lg)
           = Some (Inr rest, (b @ Itoa n, lg)) \<and>
         decimalLiteral (Itoa n) n"
  using cbor2JsonOneObject_integer [OF assms, of L wr f rest st]
    cbor2JsonOneObject_integer [OF assms, of L bufferWrite f rest "(b, lg)"]
    decimalLiteral_Itoa [of n]
  by (simp del: cbor2JsonOneObject.simps)

text \<open>The witness: \<open>-501\<close> in a two-byte head is 0x39 0x01 0xF4.\<close>

theorem C5_integer_witness:
  "cbor2JsonOneObject stubLib bufferWrite (Suc 0) ([0x39, 0x01, 0xF4] @ [0xFF]) ([], [])
     = Some (Inr [0xFF], (str ''-501'', [])) \<and>
   encodeInt 2 (- 501) = [0x39, 0x01, 0xF4] \<and>
   decimalLiteral (str ''-501'') (- 501)"
proof -
  have e: "encodeInt 2 (- 501) = [0x39, 0x01, 0xF4]"
    by (simp add: encodeInt_def encodeHead_def widthCode_def const_defs numeral_2_eq_2)
  have h: "- (2 ^ 63) \<le> (- 501 :: int)" "(- 501 :: int) < 2 ^ 63"
    "fits 2 (nat (if 0 \<le> (- 501 :: int) then - 501 else - 1 - (- 501)))"
    by (simp_all add: fits_def)
  from C5_integer [OF h, of stubLib bufferWrite 0 "[0xFF]" "([], [])" "[]" "[]"] e
  show ?thesis
    by (simp add: Itoa_examples del: cbor2JsonOneObject.simps)
qed

section \<open>Fuel: consumption, monotonicity, sufficiency\<close>

lemma readByte_Inr: "readByte src = Inr (pb, src1) \<Longrightarrow> src = pb # src1"
  by (auto simp: readByte_def split: list.splits)

lemma readNBytes_length: "readNBytes src n = Inr (x, rest) \<Longrightarrow> length rest \<le> length src"
  by (auto simp: readNBytes_def split: if_splits)

lemma decodeIntAdditionalType_length:
  "decodeIntAdditionalType src minor = Inr (v, rest) \<Longrightarrow> length rest \<le> length src"
  by (auto simp: decodeIntAdditionalType_def Let_def split: if_splits sum.splits
      dest: readNBytes_length)

lemma decodeInteger_length:
  "decodeInteger src = Inr (v, rest) \<Longrightarrow> length rest < length src"
  by (auto simp: decodeInteger_def Let_def split: if_splits sum.splits
      dest!: readByte_Inr decodeIntAdditionalType_length)

lemma decodeFloat_length:
  "decodeFloat L src = Inr (v, rest) \<Longrightarrow> length rest < length src"
  by (auto simp: decodeFloat_def Let_def split: if_splits sum.splits
      dest!: readByte_Inr readNBytes_length)

lemma decodeString_length:
  "decodeString src q = Inr (v, rest) \<Longrightarrow> length rest < length src"
  by (auto simp: decodeString_def Let_def split: if_splits sum.splits
      dest!: readByte_Inr decodeIntAdditionalType_length readNBytes_length)

lemma decodeUTF8String_length:
  "decodeUTF8String src = Inr (v, rest) \<Longrightarrow> length rest < length src"
  by (auto simp: decodeUTF8String_def Let_def split: if_splits sum.splits
      dest!: readByte_Inr decodeIntAdditionalType_length readNBytes_length)

lemma decodeSimpleFloat_length:
  "decodeSimpleFloat L src = Inr (v, rest) \<Longrightarrow> length rest < length src"
  by (auto simp: decodeSimpleFloat_def Let_def split: if_splits sum.splits
      dest!: readByte_Inr decodeFloat_length)

lemma decodeTimeStamp_length:
  "decodeTimeStamp L src = Inr (v, rest) \<Longrightarrow> length rest < length src"
  by (auto simp: decodeTimeStamp_def Let_def split: if_splits sum.splits
      dest!: decodeFloat_length decodeInteger_length)

lemma decodeTagData_length:
  "decodeTagData L src = Inr (v, rest) \<Longrightarrow> length rest < length src"
  by (auto simp: decodeTagData_def Let_def split: if_splits sum.splits
      dest!: readByte_Inr decodeIntAdditionalType_length decodeString_length
        decodeInteger_length decodeTimeStamp_length)

lemma obj_array:
  "isArrayHead src \<Longrightarrow> cbor2JsonOneObject L wr (Suc f) src st = array2Json L wr f src st"
  by (cases src) (simp_all add: isArrayHead_def const_defs)

lemma obj_map:
  "isMapHead src \<Longrightarrow> cbor2JsonOneObject L wr (Suc f) src st = map2Json L wr f src st"
  by (cases src) (simp_all add: isMapHead_def const_defs)

lemma obj_scalar:
  "\<not> isArrayHead src \<Longrightarrow> \<not> isMapHead src \<Longrightarrow>
     cbor2JsonOneObject L wr (Suc f) src st = cbor2JsonOneObject L wr (Suc 0) src st"
  by (cases src) (simp_all add: isArrayHead_def isMapHead_def Let_def)

lemma obj_scalar_Some:
  "\<not> isArrayHead src \<Longrightarrow> \<not> isMapHead src \<Longrightarrow>
     cbor2JsonOneObject L wr (Suc 0) src st \<noteq> None"
  by (cases src) (auto simp: isArrayHead_def isMapHead_def Let_def split: sum.splits)

lemma obj_scalar_length:
  assumes "\<not> isArrayHead src" "\<not> isMapHead src"
    "cbor2JsonOneObject L wr (Suc 0) src st = Some (Inr rest, st')"
  shows "length rest < length src"
proof (cases src)
  case Nil
  with assms show ?thesis by simp
next
  case (Cons pb t)
  from major_cases [of pb]
  have "pb AND maskOutAdditionalType \<in> {majorTypeUnsignedInt, majorTypeNegativeInt,
      majorTypeByteString, majorTypeUtf8String, majorTypeArray, majorTypeMap, majorTypeTags,
      majorTypeSimpleAndFloat}"
    by (simp add: const_defs)
  with assms Cons show ?thesis
    by (auto simp: isArrayHead_def isMapHead_def Let_def split: sum.splits if_splits
        dest: decodeInteger_length decodeString_length decodeUTF8String_length
          decodeTagData_length decodeSimpleFloat_length)
qed

lemma obj_consume_step:
  assumes "\<And>src st rest st'. array2Json L wr f src st = Some (Inr rest, st') \<Longrightarrow>
       length rest < length src"
   and "\<And>src st rest st'. map2Json L wr f src st = Some (Inr rest, st') \<Longrightarrow>
       length rest < length src"
   and r: "cbor2JsonOneObject L wr (Suc f) src st = Some (Inr rest, st')"
  shows "length rest < length src"
proof -
  consider "isArrayHead src" | "isMapHead src" | "\<not> isArrayHead src" "\<not> isMapHead src"
    by blast
  then show ?thesis
  proof cases
    case 1
    with r assms(1) show ?thesis by (simp add: obj_array del: cbor2JsonOneObject.simps)
  next
    case 2
    with r assms(2) show ?thesis by (simp add: obj_map del: cbor2JsonOneObject.simps)
  next
    case 3
    with r obj_scalar_length [of src L wr st rest st'] show ?thesis
      by (simp add: obj_scalar [of src L wr f] del: cbor2JsonOneObject.simps)
  qed
qed

lemma a2j_consume_step:
  assumes ih_al: "\<And>i len2 u src st rest st'. arrayLoop L wr f i len2 u src st = Some (Inr rest, st') \<Longrightarrow>
       length rest \<le> length src"
   and "array2Json L wr (Suc f) src st = Some (Inr rest, st')"
  shows "length rest < length src"
  using assms(2)
  by (auto simp: Let_def split: sum.splits if_splits
      dest!: readByte_Inr decodeIntAdditionalType_length ih_al)

lemma m2j_consume_step:
  assumes ih_ml: "\<And>i len2 u src st rest st'. mapLoop L wr f i len2 u src st = Some (Inr rest, st') \<Longrightarrow>
       length rest \<le> length src"
   and "map2Json L wr (Suc f) src st = Some (Inr rest, st')"
  shows "length rest < length src"
  using assms(2)
  by (auto simp: Let_def split: sum.splits if_splits
      dest!: readByte_Inr decodeIntAdditionalType_length ih_ml)

lemma al_consume_step:
  assumes ih_al: "\<And>i len2 u src st rest st'. arrayLoop L wr f i len2 u src st = Some (Inr rest, st') \<Longrightarrow>
       length rest \<le> length src"
   and ih_obj: "\<And>src st rest st'. cbor2JsonOneObject L wr f src st = Some (Inr rest, st') \<Longrightarrow>
       length rest < length src"
   and "arrayLoop L wr (Suc f) i len2 u src st = Some (Inr rest, st')"
  shows "length rest \<le> length src"
  using assms(3)
  by (cases src) (auto split: sum.splits if_splits option.splits list.splits
      dest!: ih_obj ih_al)

lemma ml_consume_step:
  assumes ih_ml: "\<And>i len2 u src st rest st'. mapLoop L wr f i len2 u src st = Some (Inr rest, st') \<Longrightarrow>
       length rest \<le> length src"
   and ih_obj: "\<And>src st rest st'. cbor2JsonOneObject L wr f src st = Some (Inr rest, st') \<Longrightarrow>
       length rest < length src"
   and A: "mapLoop L wr (Suc f) i len2 u src st = Some (Inr rest, st')"
  shows "length rest \<le> length src"
proof (cases "cbor2JsonOneObject L wr f src st")
  case None
  with A show ?thesis by (cases src) (auto split: if_splits)
next
  case (Some x)
  obtain r st1 where x: "x = (r, st1)" by (cases x)
  show ?thesis
  proof (cases r)
    case (Inl p)
    with A Some x show ?thesis by (cases src) (auto split: if_splits)
  next
    case (Inr src1)
    with Some x ih_obj have l: "length src1 < length src" by simp
    show ?thesis
    proof (cases "i mod 2 = 0")
      case True
      with A Some x Inr l show ?thesis
        by (cases src) (auto split: if_splits dest!: ih_ml)
    next
      case False
      with A Some x Inr l show ?thesis
        by (cases src; cases src1) (auto split: if_splits dest!: ih_ml)
    qed
  qed
qed

lemma obj_mono_step:
  assumes "\<And>src st r. array2Json L wr f src st = Some r \<Longrightarrow> array2Json L wr (Suc f) src st = Some r"
    and "\<And>src st r. map2Json L wr f src st = Some r \<Longrightarrow> map2Json L wr (Suc f) src st = Some r"
    and A: "cbor2JsonOneObject L wr (Suc f) src st = Some r"
  shows "cbor2JsonOneObject L wr (Suc (Suc f)) src st = Some r"
proof -
  consider "isArrayHead src" | "isMapHead src" | "\<not> isArrayHead src" "\<not> isMapHead src"
    by blast
  then show ?thesis
  proof cases
    case 1
    with A assms(1) show ?thesis by (simp add: obj_array del: cbor2JsonOneObject.simps array2Json.simps)
  next
    case 2
    with A assms(2) show ?thesis by (simp add: obj_map del: cbor2JsonOneObject.simps map2Json.simps)
  next
    case 3
    with A show ?thesis
      by (simp add: obj_scalar [of src L wr "Suc f"] obj_scalar [of src L wr f]
          del: cbor2JsonOneObject.simps)
  qed
qed

lemma a2j_mono_step:
  assumes ih: "\<And>i len2 u src st r. arrayLoop L wr f i len2 u src st = Some r \<Longrightarrow>
                 arrayLoop L wr (Suc f) i len2 u src st = Some r"
    and A: "array2Json L wr (Suc f) src st = Some r"
  shows "array2Json L wr (Suc (Suc f)) src st = Some r"
  using A [unfolded array2Json.simps]
  by (subst array2Json.simps)
     (auto simp: Let_def split: sum.splits if_splits intro: ih simp del: arrayLoop.simps)

lemma m2j_mono_step:
  assumes ih: "\<And>i len2 u src st r. mapLoop L wr f i len2 u src st = Some r \<Longrightarrow>
                 mapLoop L wr (Suc f) i len2 u src st = Some r"
    and A: "map2Json L wr (Suc f) src st = Some r"
  shows "map2Json L wr (Suc (Suc f)) src st = Some r"
  using A [unfolded map2Json.simps]
  by (subst map2Json.simps)
     (auto simp: Let_def split: sum.splits if_splits intro: ih simp del: mapLoop.simps)

lemma al_mono_step:
  assumes ih_al: "\<And>i len2 u src st r. arrayLoop L wr f i len2 u src st = Some r \<Longrightarrow>
                 arrayLoop L wr (Suc f) i len2 u src st = Some r"
    and ih_obj: "\<And>src st r. cbor2JsonOneObject L wr f src st = Some r \<Longrightarrow>
                 cbor2JsonOneObject L wr (Suc f) src st = Some r"
    and A: "arrayLoop L wr (Suc f) i len2 u src st = Some r"
  shows "arrayLoop L wr (Suc (Suc f)) i len2 u src st = Some r"
proof (cases "cbor2JsonOneObject L wr f src st")
  case None
  with A [unfolded arrayLoop.simps] show ?thesis
    by (subst arrayLoop.simps)
       (auto split: if_splits simp del: arrayLoop.simps cbor2JsonOneObject.simps)
next
  case (Some x)
  then have B: "cbor2JsonOneObject L wr (Suc f) src st = Some x" by (rule ih_obj)
  obtain q st1 where x: "x = (q, st1)" by (cases x)
  show ?thesis
  proof (cases q)
    case (Inl p)
    with A [unfolded arrayLoop.simps] Some B x show ?thesis
      by (subst arrayLoop.simps)
         (auto split: if_splits simp del: arrayLoop.simps cbor2JsonOneObject.simps)
  next
    case (Inr src1)
    with A [unfolded arrayLoop.simps] Some B x show ?thesis
      by (subst arrayLoop.simps)
         (auto split: if_splits list.splits intro: ih_al
            simp del: arrayLoop.simps cbor2JsonOneObject.simps)
  qed
qed

lemma ml_mono_step:
  assumes ih_ml: "\<And>i len2 u src st r. mapLoop L wr f i len2 u src st = Some r \<Longrightarrow>
                 mapLoop L wr (Suc f) i len2 u src st = Some r"
    and ih_obj: "\<And>src st r. cbor2JsonOneObject L wr f src st = Some r \<Longrightarrow>
                 cbor2JsonOneObject L wr (Suc f) src st = Some r"
    and A: "mapLoop L wr (Suc f) i len2 u src st = Some r"
  shows "mapLoop L wr (Suc (Suc f)) i len2 u src st = Some r"
proof (cases "cbor2JsonOneObject L wr f src st")
  case None
  with A [unfolded mapLoop.simps] show ?thesis
    by (subst mapLoop.simps)
       (auto split: if_splits simp del: mapLoop.simps cbor2JsonOneObject.simps)
next
  case (Some x)
  then have B: "cbor2JsonOneObject L wr (Suc f) src st = Some x" by (rule ih_obj)
  obtain q st1 where x: "x = (q, st1)" by (cases x)
  show ?thesis
  proof (cases q)
    case (Inl p)
    with A [unfolded mapLoop.simps] Some B x show ?thesis
      by (subst mapLoop.simps)
         (auto split: if_splits simp del: mapLoop.simps cbor2JsonOneObject.simps)
  next
    case (Inr src1)
    show ?thesis
    proof (cases "i mod 2 = 0")
      case True
      with Inr A [unfolded mapLoop.simps] Some B x show ?thesis
        by (subst mapLoop.simps)
           (auto split: if_splits intro: ih_ml
              simp del: mapLoop.simps cbor2JsonOneObject.simps)
    next
      case False
      with Inr A [unfolded mapLoop.simps] Some B x show ?thesis
        by (subst mapLoop.simps)
           (auto split: if_splits list.splits intro: ih_ml
              simp del: mapLoop.simps cbor2JsonOneObject.simps)
    qed
  qed
qed

lemma obj_enough_step:
  assumes "\<And>src st. 3 * length src + 1 \<le> f \<Longrightarrow> array2Json L wr f src st \<noteq> None"
    and "\<And>src st. 3 * length src + 1 \<le> f \<Longrightarrow> map2Json L wr f src st \<noteq> None"
    and A: "3 * length src + 2 \<le> Suc f"
  shows "cbor2JsonOneObject L wr (Suc f) src st \<noteq> None"
proof -
  consider "isArrayHead src" | "isMapHead src" | "\<not> isArrayHead src" "\<not> isMapHead src"
    by blast
  then show ?thesis
  proof cases
    case 1
    with A assms(1) [of src st] show ?thesis
      by (simp add: obj_array del: cbor2JsonOneObject.simps array2Json.simps)
  next
    case 2
    with A assms(2) [of src st] show ?thesis
      by (simp add: obj_map del: cbor2JsonOneObject.simps map2Json.simps)
  next
    case 3
    with obj_scalar_Some [of src L wr st] show ?thesis
      by (simp add: obj_scalar [of src L wr f] del: cbor2JsonOneObject.simps)
  qed
qed

lemma a2j_enough_step:
  assumes ih: "\<And>i len2 u src st. 3 * length src + 3 \<le> f \<Longrightarrow>
                 arrayLoop L wr f i len2 u src st \<noteq> None"
    and A: "3 * length src + 1 \<le> Suc f"
  shows "array2Json L wr (Suc f) src st \<noteq> None"
proof (cases src)
  case Nil
  then show ?thesis by (simp add: readByte_def)
next
  case (Cons pb src1)
  with A have b: "3 * length src1 + 3 \<le> f" by simp
  show ?thesis
  proof (cases "decodeIntAdditionalType src1 (pb AND maskOutMajorType)")
    case (Inl p)
    with Cons ih [OF b] show ?thesis
      by (subst array2Json.simps) (simp add: Let_def readByte_def del: arrayLoop.simps)
  next
    case (Inr x)
    obtain len src2 where x: "x = (len, src2)" by (cases x)
    with Inr have "length src2 \<le> length src1" by (auto dest: decodeIntAdditionalType_length)
    with b have "3 * length src2 + 3 \<le> f" by simp
    with Cons Inr x ih [OF b] ih [of src2] show ?thesis
      by (subst array2Json.simps) (simp add: Let_def readByte_def del: arrayLoop.simps)
  qed
qed

lemma m2j_enough_step:
  assumes ih: "\<And>i len2 u src st. 3 * length src + 3 \<le> f \<Longrightarrow>
                 mapLoop L wr f i len2 u src st \<noteq> None"
    and A: "3 * length src + 1 \<le> Suc f"
  shows "map2Json L wr (Suc f) src st \<noteq> None"
proof (cases src)
  case Nil
  then show ?thesis by (simp add: readByte_def)
next
  case (Cons pb src1)
  with A have b: "3 * length src1 + 3 \<le> f" by simp
  show ?thesis
  proof (cases "decodeIntAdditionalType src1 (pb AND maskOutMajorType)")
    case (Inl p)
    with Cons ih [OF b] show ?thesis
      by (subst map2Json.simps) (simp add: Let_def readByte_def del: mapLoop.simps)
  next
    case (Inr x)
    obtain len src2 where x: "x = (len, src2)" by (cases x)
    with Inr have "length src2 \<le> length src1" by (auto dest: decodeIntAdditionalType_length)
    with b have "3 * length src2 + 3 \<le> f" by simp
    with Cons Inr x ih [OF b] ih [of src2] show ?thesis
      by (subst map2Json.simps) (simp add: Let_def readByte_def del: mapLoop.simps)
  qed
qed

lemma al_enough_step:
  assumes ih_al: "\<And>i len2 u src st. 3 * length src + 3 \<le> f \<Longrightarrow>
                 arrayLoop L wr f i len2 u src st \<noteq> None"
    and ih_obj: "\<And>src st. 3 * length src + 2 \<le> f \<Longrightarrow>
                 cbor2JsonOneObject L wr f src st \<noteq> None"
    and co: "\<And>src st rest st'. cbor2JsonOneObject L wr f src st = Some (Inr rest, st') \<Longrightarrow>
                 length rest < length src"
    and A: "3 * length src + 3 \<le> Suc f"
  shows "arrayLoop L wr (Suc f) i len2 u src st \<noteq> None"
proof (cases "cbor2JsonOneObject L wr f src st")
  case None
  with ih_obj [of src st] A show ?thesis by simp
next
  case (Some x)
  obtain q st1 where x: "x = (q, st1)" by (cases x)
  show ?thesis
  proof (cases q)
    case (Inl p)
    with Some x show ?thesis
      by (subst arrayLoop.simps) (simp del: arrayLoop.simps cbor2JsonOneObject.simps)
  next
    case (Inr src1)
    with Some x co have "length src1 < length src" by simp
    with A have b: "3 * length src1 + 3 \<le> f" by simp
    have ih': "\<exists>a aa b. arrayLoop L wr f i' l' u' src' st' = Some (a, aa, b)"
      if "length src' \<le> length src1" for i' l' u' src' st'
      using ih_al [of src' i' l' u' st'] b that by auto
    from Inr Some x ih' show ?thesis
      by (subst arrayLoop.simps)
         (auto split: list.splits simp del: arrayLoop.simps cbor2JsonOneObject.simps)
  qed
qed

lemma ml_enough_step:
  assumes ih_ml: "\<And>i len2 u src st. 3 * length src + 3 \<le> f \<Longrightarrow>
                 mapLoop L wr f i len2 u src st \<noteq> None"
    and ih_obj: "\<And>src st. 3 * length src + 2 \<le> f \<Longrightarrow>
                 cbor2JsonOneObject L wr f src st \<noteq> None"
    and co: "\<And>src st rest st'. cbor2JsonOneObject L wr f src st = Some (Inr rest, st') \<Longrightarrow>
                 length rest < length src"
    and A: "3 * length src + 3 \<le> Suc f"
  shows "mapLoop L wr (Suc f) i len2 u src st \<noteq> None"
proof (cases "cbor2JsonOneObject L wr f src st")
  case None
  with ih_obj [of src st] A show ?thesis by simp
next
  case (Some x)
  obtain q st1 where x: "x = (q, st1)" by (cases x)
  show ?thesis
  proof (cases q)
    case (Inl p)
    with Some x show ?thesis
      by (subst mapLoop.simps) (simp del: mapLoop.simps cbor2JsonOneObject.simps)
  next
    case (Inr src1)
    with Some x co have "length src1 < length src" by simp
    with A have b: "3 * length src1 + 3 \<le> f" by simp
    have ih': "\<exists>a aa b. mapLoop L wr f i' l' u' src' st' = Some (a, aa, b)"
      if "length src' \<le> length src1" for i' l' u' src' st'
      using ih_ml [of src' i' l' u' st'] b that by auto
    show ?thesis
    proof (cases "i mod 2 = 0")
      case True
      with Inr Some x ih' show ?thesis
        by (subst mapLoop.simps)
           (auto simp del: mapLoop.simps cbor2JsonOneObject.simps)
    next
      case False
      with Inr Some x ih' show ?thesis
        by (subst mapLoop.simps)
           (auto split: list.splits simp del: mapLoop.simps cbor2JsonOneObject.simps)
    qed
  qed
qed

lemma consume_all:
  "(\<forall>src st rest st'. cbor2JsonOneObject L wr f src st = Some (Inr rest, st') \<longrightarrow>
       length rest < length src) \<and>
   (\<forall>src st rest st'. array2Json L wr f src st = Some (Inr rest, st') \<longrightarrow>
       length rest < length src) \<and>
   (\<forall>i len2 u src st rest st'. arrayLoop L wr f i len2 u src st = Some (Inr rest, st') \<longrightarrow>
       length rest \<le> length src) \<and>
   (\<forall>src st rest st'. map2Json L wr f src st = Some (Inr rest, st') \<longrightarrow>
       length rest < length src) \<and>
   (\<forall>i l u src st rest st'. mapLoop L wr f i l u src st = Some (Inr rest, st') \<longrightarrow>
       length rest \<le> length src)"
proof (induction f)
  case 0
  show ?case by simp
next
  case (Suc f)
  note ih_obj = Suc.IH [THEN conjunct1, rule_format]
  note ih_a2j = Suc.IH [THEN conjunct2, THEN conjunct1, rule_format]
  note ih_al = Suc.IH [THEN conjunct2, THEN conjunct2, THEN conjunct1, rule_format]
  note ih_m2j = Suc.IH [THEN conjunct2, THEN conjunct2, THEN conjunct2, THEN conjunct1, rule_format]
  note ih_ml = Suc.IH [THEN conjunct2, THEN conjunct2, THEN conjunct2, THEN conjunct2, rule_format]
  show ?case
  proof (intro conjI allI impI)
    fix src st rest st'
    assume "cbor2JsonOneObject L wr (Suc f) src st = Some (Inr rest, st')"
    then show "length rest < length src"
      using ih_a2j ih_m2j by (rule obj_consume_step [rotated 2])
  next
    fix src st rest st'
    assume "array2Json L wr (Suc f) src st = Some (Inr rest, st')"
    then show "length rest < length src"
      using ih_al by (rule a2j_consume_step [rotated 1])
  next
    fix i len2 u src st rest st'
    assume "arrayLoop L wr (Suc f) i len2 u src st = Some (Inr rest, st')"
    then show "length rest \<le> length src"
      using ih_al ih_obj by (rule al_consume_step [rotated 2])
  next
    fix src st rest st'
    assume "map2Json L wr (Suc f) src st = Some (Inr rest, st')"
    then show "length rest < length src"
      using ih_ml by (rule m2j_consume_step [rotated 1])
  next
    fix i l u src st rest st'
    assume "mapLoop L wr (Suc f) i l u src st = Some (Inr rest, st')"
    then show "length rest \<le> length src"
      using ih_ml ih_obj by (rule ml_consume_step [rotated 2])
  qed
qed

lemmas cbor2JsonOneObject_consumes = consume_all [THEN conjunct1, rule_format]

lemma mono_all:
  "(\<forall>src st r. cbor2JsonOneObject L wr f src st = Some r \<longrightarrow>
       cbor2JsonOneObject L wr (Suc f) src st = Some r) \<and>
   (\<forall>src st r. array2Json L wr f src st = Some r \<longrightarrow>
       array2Json L wr (Suc f) src st = Some r) \<and>
   (\<forall>i len2 u src st r. arrayLoop L wr f i len2 u src st = Some r \<longrightarrow>
       arrayLoop L wr (Suc f) i len2 u src st = Some r) \<and>
   (\<forall>src st r. map2Json L wr f src st = Some r \<longrightarrow>
       map2Json L wr (Suc f) src st = Some r) \<and>
   (\<forall>i l u src st r. mapLoop L wr f i l u src st = Some r \<longrightarrow>
       mapLoop L wr (Suc f) i l u src st = Some r)"
proof (induction f)
  case 0
  show ?case by simp
next
  case (Suc f)
  note ih_obj = Suc.IH [THEN conjunct1, rule_format]
  note ih_a2j = Suc.IH [THEN conjunct2, THEN conjunct1, rule_format]
  note ih_al = Suc.IH [THEN conjunct2, THEN conjunct2, THEN conjunct1, rule_format]
  note ih_m2j = Suc.IH [THEN conjunct2, THEN conjunct2, THEN conjunct2, THEN conjunct1, rule_format]
  note ih_ml = Suc.IH [THEN conjunct2, THEN conjunct2, THEN conjunct2, THEN conjunct2, rule_format]
  show ?case
  proof (intro conjI allI impI)
    fix src st r
    assume "cbor2JsonOneObject L wr (Suc f) src st = Some r"
    then show "cbor2JsonOneObject L wr (Suc (Suc f)) src st = Some r"
      using ih_a2j ih_m2j by (rule obj_mono_step [rotated 2])
  next
    fix src st r
    assume "array2Json L wr (Suc f) src st = Some r"
    then show "array2Json L wr (Suc (Suc f)) src st = Some r"
      using ih_al by (rule a2j_mono_step [rotated 1])
  next
    fix i len2 u src st r
    assume "arrayLoop L wr (Suc f) i len2 u src st = Some r"
    then show "arrayLoop L wr (Suc (Suc f)) i len2 u src st = Some r"
      using ih_al ih_obj by (rule al_mono_step [rotated 2])
  next
    fix src st r
    assume "map2Json L wr (Suc f) src st = Some r"
    then show "map2Json L wr (Suc (Suc f)) src st = Some r"
      using ih_ml by (rule m2j_mono_step [rotated 1])
  next
    fix i l u src st r
    assume "mapLoop L wr (Suc f) i l u src st = Some r"
    then show "mapLoop L wr (Suc (Suc f)) i l u src st = Some r"
      using ih_ml ih_obj by (rule ml_mono_step [rotated 2])
  qed
qed

lemma enough_all:
  fixes wr :: "'a writer"
  shows
  "(\<forall>src st. 3 * length src + 2 \<le> f \<longrightarrow> cbor2JsonOneObject L wr f src st \<noteq> None) \<and>
   (\<forall>src st. 3 * length src + 1 \<le> f \<longrightarrow> array2Json L wr f src st \<noteq> None) \<and>
   (\<forall>i len2 u src st. 3 * length src + 3 \<le> f \<longrightarrow> arrayLoop L wr f i len2 u src st \<noteq> None) \<and>
   (\<forall>src st. 3 * length src + 1 \<le> f \<longrightarrow> map2Json L wr f src st \<noteq> None) \<and>
   (\<forall>i l u src st. 3 * length src + 3 \<le> f \<longrightarrow> mapLoop L wr f i l u src st \<noteq> None)"
proof (induction f)
  case 0
  show ?case by simp
next
  case (Suc f)
  note ih_obj = Suc.IH [THEN conjunct1, rule_format]
  note ih_a2j = Suc.IH [THEN conjunct2, THEN conjunct1, rule_format]
  note ih_al = Suc.IH [THEN conjunct2, THEN conjunct2, THEN conjunct1, rule_format]
  note ih_m2j = Suc.IH [THEN conjunct2, THEN conjunct2, THEN conjunct2, THEN conjunct1, rule_format]
  note ih_ml = Suc.IH [THEN conjunct2, THEN conjunct2, THEN conjunct2, THEN conjunct2, rule_format]
  show ?case
  proof (intro conjI allI impI)
    fix src :: "byte list" and st :: "'a \<times> errlog"
    assume "3 * length src + 2 \<le> Suc f"
    then show "cbor2JsonOneObject L wr (Suc f) src st \<noteq> None"
      using ih_a2j ih_m2j by (rule obj_enough_step [rotated 2])
  next
    fix src :: "byte list" and st :: "'a \<times> errlog"
    assume "3 * length src + 1 \<le> Suc f"
    then show "array2Json L wr (Suc f) src st \<noteq> None"
      using ih_al by (rule a2j_enough_step [rotated 1])
  next
    fix i len2 u and src :: "byte list" and st :: "'a \<times> errlog"
    assume "3 * length src + 3 \<le> Suc f"
    then show "arrayLoop L wr (Suc f) i len2 u src st \<noteq> None"
      using ih_al ih_obj cbor2JsonOneObject_consumes by (rule al_enough_step [rotated 3])
  next
    fix src :: "byte list" and st :: "'a \<times> errlog"
    assume "3 * length src + 1 \<le> Suc f"
    then show "map2Json L wr (Suc f) src st \<noteq> None"
      using ih_ml by (rule m2j_enough_step [rotated 1])
  next
    fix i l u and src :: "byte list" and st :: "'a \<times> errlog"
    assume "3 * length src + 3 \<le> Suc f"
    then show "mapLoop L wr (Suc f) i l u src st \<noteq> None"
      using ih_ml ih_obj cbor2JsonOneObject_consumes by (rule ml_enough_step [rotated 3])
  qed
qed

declare cbor2JsonOneObject.simps [simp del] array2Json.simps [simp del]
  arrayLoop.simps [simp del] map2Json.simps [simp del] mapLoop.simps [simp del]
  manyObjLoop.simps [simp del]

lemmas cbor2JsonOneObject_mono_Suc = mono_all [THEN conjunct1, rule_format]
lemmas cbor2JsonOneObject_enough = enough_all [THEN conjunct1, rule_format]

lemma cbor2JsonOneObject_mono:
  "f \<le> f' \<Longrightarrow> cbor2JsonOneObject L wr f src st = Some r \<Longrightarrow>
     cbor2JsonOneObject L wr f' src st = Some r"
  by (induction f' rule: dec_induct) (auto intro: cbor2JsonOneObject_mono_Suc)

text \<open>With enough fuel the dispatcher returns, and more fuel gives the same result.\<close>

lemma cbor2JsonOneObject_returns:
  assumes "3 * length src + 2 \<le> f"
  shows "\<exists>r. cbor2JsonOneObject L wr f src st = Some r"
proof -
  from cbor2JsonOneObject_enough [OF le_refl, where src=src and L=L and wr=wr and st=st]
  obtain r where r: "cbor2JsonOneObject L wr (3 * length src + 2) src st = Some r" by auto
  from cbor2JsonOneObject_mono [OF assms r] show ?thesis by blast
qed

lemma cbor2JsonOneObject_fuel:
  assumes "3 * length src + 2 \<le> f" "3 * length src + 2 \<le> f'"
  shows "cbor2JsonOneObject L wr f src st = cbor2JsonOneObject L wr f' src st"
proof -
  from cbor2JsonOneObject_enough [OF le_refl, where src=src and L=L and wr=wr and st=st]
  obtain r where r: "cbor2JsonOneObject L wr (3 * length src + 2) src st = Some r" by auto
  from cbor2JsonOneObject_mono [OF assms(1) r] cbor2JsonOneObject_mono [OF assms(2) r]
  show ?thesis by simp
qed

lemma manyObjLoop_mono_Suc:
  "manyObjLoop L wr f src st = Some r \<Longrightarrow> manyObjLoop L wr (Suc f) src st = Some r"
proof (induction f arbitrary: src st)
  case 0
  then show ?case by (simp add: manyObjLoop.simps)
next
  case (Suc f)
  show ?case
  proof (cases "cbor2JsonOneObject L wr f src st")
    case None
    with Suc.prems [unfolded manyObjLoop.simps(2)] show ?thesis
      by (subst manyObjLoop.simps(2))
         (auto split: if_splits)
  next
    case (Some x)
    then have B: "cbor2JsonOneObject L wr (Suc f) src st = Some x"
      by (rule cbor2JsonOneObject_mono_Suc)
    obtain q st1 where x: "x = (q, st1)" by (cases x)
    from Suc.prems [unfolded manyObjLoop.simps(2)] Some B x show ?thesis
      by (subst manyObjLoop.simps(2))
         (auto split: if_splits sum.splits intro: Suc.IH
           )
  qed
qed

lemma manyObjLoop_mono:
  "f \<le> f' \<Longrightarrow> manyObjLoop L wr f src st = Some r \<Longrightarrow> manyObjLoop L wr f' src st = Some r"
  by (induction f' rule: dec_induct) (auto intro: manyObjLoop_mono_Suc)

lemma manyObjLoop_enough:
  "3 * length src + 3 \<le> f \<Longrightarrow> manyObjLoop L wr f src st \<noteq> None"
proof (induction f arbitrary: src st)
  case 0
  then show ?case by simp
next
  case (Suc f)
  show ?case
  proof (cases "cbor2JsonOneObject L wr f src st")
    case None
    with cbor2JsonOneObject_enough [where src=src and f=f and L=L and wr=wr and st=st] Suc.prems show ?thesis by simp
  next
    case (Some x)
    obtain q st1 where x: "x = (q, st1)" by (cases x)
    show ?thesis
    proof (cases q)
      case (Inl p)
      with Some x show ?thesis
        by (subst manyObjLoop.simps(2)) simp
    next
      case (Inr src1)
      with Some x have "length src1 < length src"
        by (auto dest: cbor2JsonOneObject_consumes)
      with Suc.prems have "3 * length src1 + 3 \<le> f" by simp
      from Suc.IH [OF this] Inr Some x show ?thesis
        by (subst manyObjLoop.simps(2)) simp
    qed
  qed
qed

lemma manyObjLoop_fuel:
  assumes "3 * length src + 3 \<le> f" "3 * length src + 3 \<le> f'"
  shows "manyObjLoop L wr f src st = manyObjLoop L wr f' src st"
proof -
  from manyObjLoop_enough [OF le_refl, where src=src and L=L and wr=wr and st=st]
  obtain r where r: "manyObjLoop L wr (3 * length src + 3) src st = Some r" by auto
  from manyObjLoop_mono [OF assms(1) r] manyObjLoop_mono [OF assms(2) r]
  show ?thesis by simp
qed

text \<open>The deferred function of \<^verbatim>\<open>ManyObjCBOR2JSON\<close>, on the result of the loop.\<close>

lemma ManyObjCBOR2JSON_nonempty:
  assumes "src \<noteq> []"
  shows "ManyObjCBOR2JSON L wr src st =
     (case cbor2JsonOneObject L wr (fuel src) src st of
        None \<Rightarrow> None
      | Some (Inr src1, st1) \<Rightarrow> ManyObjCBOR2JSON L wr src1 (dstWrite wr [0x0A] ''Can't write'' st1)
      | Some (Inl (Error e), st1) \<Rightarrow> Some (Inr (Some e), st1)
      | Some (Inl (RuntimeError r), st1) \<Rightarrow> Some (Inl (RuntimeError r), st1))"
proof -
  have fu: "fuel src = Suc (3 * length src + 2)" by (simp add: fuel_def)
  have o: "cbor2JsonOneObject L wr (3 * length src + 2) src st
             = cbor2JsonOneObject L wr (fuel src) src st"
    by (rule cbor2JsonOneObject_fuel) (simp_all add: fuel_def)
  from cbor2JsonOneObject_returns [where src=src and f="fuel src" and L=L and wr=wr and st=st]
  obtain q st1 where r: "cbor2JsonOneObject L wr (fuel src) src st = Some (q, st1)"
    by (auto simp: fuel_def)
  show ?thesis
  proof (cases q)
    case (Inl p)
    with r o assms show ?thesis
      by (cases p) (simp_all add: ManyObjCBOR2JSON_def fu moreBytesToRead_def manyObjLoop.simps)
  next
    case (Inr src1)
    with r have "length src1 < length src" by (auto dest: cbor2JsonOneObject_consumes)
    then have "manyObjLoop L wr (3 * length src + 2) src1 st' = manyObjLoop L wr (fuel src1) src1 st'"
      for st'
      by (intro manyObjLoop_fuel) (simp_all add: fuel_def)
    with Inr r o assms show ?thesis
      by (simp add: ManyObjCBOR2JSON_def [of L wr src] ManyObjCBOR2JSON_def [of L wr src1]
          fu moreBytesToRead_def manyObjLoop.simps)
  qed
qed

subsection \<open>The driver on three inputs\<close>

text \<open>
  Exhausted input; a string head that announces \<open>2 ^ 63 - 1\<close> bytes, which \<^verbatim>\<open>make\<close> refuses
  with a runtime error that the driver raises again; and the integer 1 followed by an array
  of one element that is not there, where the driver returns the error \<^verbatim>\<open>EOF\<close> and the sink
  keeps the text \<^verbatim>\<open>1\<close>, the newline and the bracket written before the fault.
\<close>

lemma fuel_Suc: "fuel src = Suc (3 * length src + 2)"
  by (simp add: fuel_def)

lemma huge_length_runtime_error:
  "cbor2JsonOneObject L wr (Suc f) [0x7B, 0x7F, 0xFF, 0xFF, 0xFF, 0xFF, 0xFF, 0xFF, 0xFF] st
     = Some (Inl (RuntimeError (str ''runtime error: makeslice: len out of range'')), st)"
  by (simp add: cbor2JsonOneObject.simps const_defs decodeUTF8String_def readByte_def
      decodeIntAdditionalType_def readNBytes_def maxAlloc_def)

lemma ManyObjCBOR2JSON_runtime_error:
  "ManyObjCBOR2JSON L wr [0x7B, 0x7F, 0xFF, 0xFF, 0xFF, 0xFF, 0xFF, 0xFF, 0xFF] st
     = Some (Inl (RuntimeError (str ''runtime error: makeslice: len out of range'')), st)"
proof -
  let ?src = "[0x7B, 0x7F, 0xFF, 0xFF, 0xFF, 0xFF, 0xFF, 0xFF, 0xFF] :: byte list"
  have "cbor2JsonOneObject L wr (fuel ?src) ?src st
          = Some (Inl (RuntimeError (str ''runtime error: makeslice: len out of range'')), st)"
    unfolding fuel_Suc by (rule huge_length_runtime_error)
  then show ?thesis
    by (subst ManyObjCBOR2JSON_nonempty) simp_all
qed

lemma ManyObjCBOR2JSON_Nil: "ManyObjCBOR2JSON L wr [] st = Some (Inr None, st)"
  by (simp add: ManyObjCBOR2JSON_def fuel_def moreBytesToRead_def numeral_3_eq_3
      manyObjLoop.simps)

lemma ManyObjCBOR2JSON_partial_output:
  "ManyObjCBOR2JSON L bufferWrite [0x01, 0x81] (b, lg)
     = Some (Inr (Some (str ''EOF'')), (b @ [0x31, 0x0A, 0x5B], lg))"
proof -
  have 1: "cbor2JsonOneObject L bufferWrite (fuel [0x01, 0x81]) [0x01, 0x81] (b, lg)
             = Some (Inr [0x81], (b @ [0x31], lg))"
    unfolding fuel_Suc
    by (subst obj_scalar)
       (simp_all add: isArrayHead_def isMapHead_def cbor2JsonOneObject.simps const_defs
         decodeInteger_def readByte_def decodeIntAdditionalType_def Itoa_def digits.simps)
  have "cbor2JsonOneObject L bufferWrite (fuel [0x81]) [0x81] (b @ [0x31, 0x0A], lg)
          = cbor2JsonOneObject L bufferWrite (Suc (Suc (Suc (Suc (Suc 0))))) [0x81]
              (b @ [0x31, 0x0A], lg)"
    by (rule cbor2JsonOneObject_fuel) (simp_all add: fuel_def)
  also have "\<dots> = Some (Inl (Error (str ''EOF'')), (b @ [0x31, 0x0A, 0x5B], lg))"
    by (simp add: cbor2JsonOneObject.simps array2Json.simps arrayLoop.simps const_defs
        readByte_def decodeIntAdditionalType_def)
  finally have 2: "cbor2JsonOneObject L bufferWrite (fuel [0x81]) [0x81] (b @ [0x31, 0x0A], lg)
      = Some (Inl (Error (str ''EOF'')), (b @ [0x31, 0x0A, 0x5B], lg))" .
  show ?thesis
    by (subst ManyObjCBOR2JSON_nonempty, simp, simp only: 1, simp,
        subst ManyObjCBOR2JSON_nonempty, simp, simp only: 2, simp)
qed

section \<open>The stream driver\<close>


section \<open>Nested arrays and maps\<close>

lemma fits_minWidth: "n < 2 ^ 64 \<Longrightarrow> fits (minWidth n) n"
  by (simp add: fits_def minWidth_def)

lemma decodesTo_Num:
  assumes "- (2 ^ 63) \<le> n" "n < 2 ^ 63"
  shows "decodesTo L (encode (Num n)) (render (Num n))"
proof -
  have "fits (minWidth (nat (if 0 \<le> n then n else - 1 - n))) (nat (if 0 \<le> n then n else - 1 - n))"
    using assms by (intro fits_minWidth) (auto simp: nat_less_iff)
  from cbor2JsonOneObject_integer [OF assms this, where L=L and wr=bufferWrite]
  have "cbor2JsonOneObject L bufferWrite f (encode (Num n) @ rest) (b, lg)
          = Some (Inr rest, (b @ Itoa n, lg))" if "1 \<le> f" for f rest b lg
    using that by (cases f) simp_all
  then show ?thesis unfolding decodesTo_def by (intro exI [of _ 1]) simp
qed

lemma decodesTo_Bool: "decodesTo L (encode (Bool v)) (render (Bool v))"
proof -
  have "cbor2JsonOneObject L bufferWrite f (encode (Bool v) @ rest) (b, lg)
          = Some (Inr rest, (b @ render (Bool v), lg))" if "1 \<le> f" for f rest b lg
    using that
    by (cases f) (simp_all add: cbor2JsonOneObject.simps const_defs decodeSimpleFloat_def
        readByte_def)
  then show ?thesis unfolding decodesTo_def by (intro exI [of _ 1]) blast
qed

lemma decodesTo_Null: "decodesTo L (encode Null) (render Null)"
proof -
  have "cbor2JsonOneObject L bufferWrite f (encode Null @ rest) (b, lg)
          = Some (Inr rest, (b @ render Null, lg))" if "1 \<le> f" for f rest b lg
    using that
    by (cases f) (simp_all add: cbor2JsonOneObject.simps const_defs decodeSimpleFloat_def
        readByte_def)
  then show ?thesis unfolding decodesTo_def by (intro exI [of _ 1]) blast
qed

text \<open>The first byte of an encoding: never the break byte.\<close>

lemma encodeHead_hd:
  assumes "isMajor M" "fits w n"
  shows "encodeHead M w n \<noteq> [] \<and> hd (encodeHead M w n) AND maskOutAdditionalType = M"
proof -
  from decode_encodeHead [OF assms, of "[]"]
  obtain pb src1 where "readByte (encodeHead M w n) = Inr (pb, src1)"
    "pb AND maskOutAdditionalType = M" by auto
  then show ?thesis by (auto dest!: readByte_Inr)
qed

lemma encode_hd:
  assumes "wf t"
  shows "encode t \<noteq> [] \<and> hd (encode t) \<noteq> breakByte \<and>
         (isArrayHead (encode t @ rest) \<longleftrightarrow> (\<exists>u xs. t = Arr u xs)) \<and>
         (isMapHead (encode t @ rest) \<longleftrightarrow> (\<exists>u xs. t = Map u xs))"
proof (cases t)
  case (Num n)
  with assms have f: "fits (minWidth (nat (if 0 \<le> n then n else - 1 - n))) (nat (if 0 \<le> n then n else - 1 - n))"
    by (intro fits_minWidth) (auto simp: nat_less_iff)
  show ?thesis
  proof (cases "0 \<le> n")
    case True
    with f encodeHead_hd [OF isMajor_consts(1), of "minWidth (nat n)" "nat n"] Num show ?thesis
      by (auto simp: encodeInt_def isArrayHead_def isMapHead_def breakByte_def const_defs)
  next
    case False
    with f encodeHead_hd [OF isMajor_consts(2), of "minWidth (nat (- 1 - n))" "nat (- 1 - n)"] Num
    show ?thesis
      by (auto simp: encodeInt_def isArrayHead_def isMapHead_def breakByte_def const_defs)
  qed
next
  case (Bool v)
  then show ?thesis by (simp add: isArrayHead_def isMapHead_def breakByte_def const_defs)
next
  case Null
  then show ?thesis by (simp add: isArrayHead_def isMapHead_def breakByte_def const_defs)
next
  case (Arr u xs)
  with assms have "fits (minWidth (length xs)) (length xs)" by (intro fits_minWidth) simp
  with encodeHead_hd [OF isMajor_consts(5), of "minWidth (length xs)" "length xs"] Arr
  show ?thesis
    by (auto simp: isArrayHead_def isMapHead_def breakByte_def const_defs)
next
  case (Map u xs)
  with assms have "fits (minWidth (length xs)) (length xs)" by (intro fits_minWidth) simp
  with encodeHead_hd [OF isMajor_consts(6), of "minWidth (length xs)" "length xs"] Map
  show ?thesis
    by (auto simp: isArrayHead_def isMapHead_def breakByte_def const_defs)
qed

lemma decodeIntAdditionalType_indefinite:
  "decodeIntAdditionalType src additionalTypeInfiniteCount \<noteq> Inr x"
  by (simp add: decodeIntAdditionalType_def const_defs)

lemma array2Json_definite:
  assumes "fits w n" "n < 2 ^ 63"
  shows "array2Json L bufferWrite (Suc f) (encodeHead majorTypeArray w n @ src) (b, lg)
           = arrayLoop L bufferWrite f 0 (int n) False src (b @ [0x5B], lg)"
proof -
  from decode_encodeHead [OF isMajor_consts(5) assms(1), of src]
  obtain pb src1 where r: "readByte (encodeHead majorTypeArray w n @ src) = Inr (pb, src1)"
    and m: "pb AND maskOutAdditionalType = majorTypeArray"
    and d: "decodeIntAdditionalType src1 (pb AND maskOutMajorType) = Inr (of_nat n, src)"
    by blast
  from d have i: "pb AND maskOutMajorType \<noteq> additionalTypeInfiniteCount"
    using decodeIntAdditionalType_indefinite by metis
  from r m d i assms(2) show ?thesis
    by (simp add: array2Json.simps sint_of_nat_64)
qed

lemma array2Json_indefinite:
  "array2Json L bufferWrite (Suc f) ((majorTypeArray OR additionalTypeInfiniteCount) # src) (b, lg)
     = arrayLoop L bufferWrite f 0 0 True src (b @ [0x5B], lg)"
  by (simp add: array2Json.simps readByte_def const_defs)

lemma map2Json_definite:
  assumes "fits w n" "n < 2 ^ 63"
  shows "map2Json L bufferWrite (Suc f) (encodeHead majorTypeMap w n @ src) (b, lg)
           = mapLoop L bufferWrite f 0 (int n) False src (b @ [0x7B], lg)"
proof -
  from decode_encodeHead [OF isMajor_consts(6) assms(1), of src]
  obtain pb src1 where r: "readByte (encodeHead majorTypeMap w n @ src) = Inr (pb, src1)"
    and m: "pb AND maskOutAdditionalType = majorTypeMap"
    and d: "decodeIntAdditionalType src1 (pb AND maskOutMajorType) = Inr (of_nat n, src)"
    by blast
  from d have i: "pb AND maskOutMajorType \<noteq> additionalTypeInfiniteCount"
    using decodeIntAdditionalType_indefinite by metis
  from r m d i assms(2) show ?thesis
    by (simp add: map2Json.simps sint_of_nat_64)
qed

lemma map2Json_indefinite:
  "map2Json L bufferWrite (Suc f) ((majorTypeMap OR additionalTypeInfiniteCount) # src) (b, lg)
     = mapLoop L bufferWrite f 0 0 True src (b @ [0x7B], lg)"
  by (simp add: map2Json.simps readByte_def const_defs)

lemma joinWith_Cons:
  "joinWith s (x # xs) = (if xs = [] then x else x @ s # joinWith s xs)"
  by (cases xs) simp_all

text \<open>The loop of a definite-length array, on the encodings of the elements still to come.\<close>

lemma arrayLoop_definite:
  assumes "\<forall>x\<in>set xs. decodesTo L (encode x) (render x)"
  shows "\<exists>f0. \<forall>f\<ge>f0. \<forall>i len2 rest b lg. i + int (length xs) = len2 \<longrightarrow>
           arrayLoop L bufferWrite f i len2 False (concat (map encode xs) @ rest) (b, lg)
             = Some (Inr rest, (b @ joinWith 0x2C (map render xs) @ [0x5D], lg))"
  using assms
proof (induction xs)
  case Nil
  have "arrayLoop L bufferWrite f i i False rest (b, lg) = Some (Inr rest, (b @ [0x5D], lg))"
    if "1 \<le> f" for f i rest b lg
    using that by (cases f) (simp_all add: arrayLoop.simps)
  then show ?case by (intro exI [of _ 1]) simp
next
  case (Cons x xs)
  from Cons.prems have "decodesTo L (encode x) (render x)" by simp
  then obtain fx where fx0: "\<forall>f\<ge>fx. \<forall>rest b lg.
      cbor2JsonOneObject L bufferWrite f (encode x @ rest) (b, lg)
        = Some (Inr rest, (b @ render x, lg))"
    unfolding decodesTo_def by blast
  note fx = fx0 [rule_format]
  from Cons.prems have "\<forall>x\<in>set xs. decodesTo L (encode x) (render x)" by simp
  from Cons.IH [OF this]
  obtain fs where fs0: "\<forall>f\<ge>fs. \<forall>i len2 rest b lg. i + int (length xs) = len2 \<longrightarrow>
      arrayLoop L bufferWrite f i len2 False (concat (map encode xs) @ rest) (b, lg)
        = Some (Inr rest, (b @ joinWith 0x2C (map render xs) @ [0x5D], lg))"
    by blast
  note fs = fs0 [rule_format]
  have "arrayLoop L bufferWrite f i len2 False (concat (map encode (x # xs)) @ rest) (b, lg)
          = Some (Inr rest, (b @ joinWith 0x2C (map render (x # xs)) @ [0x5D], lg))"
    if f: "Suc (max fx fs) \<le> f" and l: "i + int (length (x # xs)) = len2" for f i len2 rest b lg
  proof -
    from f obtain f' where f': "f = Suc f'" "fx \<le> f'" "fs \<le> f'" by (cases f) auto
    from l have c: "i < len2" "(i + 1 < len2) = (xs \<noteq> [])" "(i + 1) + int (length xs) = len2"
      by auto
    from fs [OF f'(3) c(3), of rest "b @ render x" lg]
      fs [OF f'(3) c(3), of rest "b @ render x @ [0x2C]" lg]
    show ?thesis
      unfolding f'(1)
      by (subst arrayLoop.simps) (cases xs; simp add: c fx [OF f'(2)])
  qed
  then show ?case by blast
qed

text \<open>The loop of an indefinite-length array, up to and with the break byte.\<close>

lemma arrayLoop_indefinite:
  assumes "\<forall>x\<in>set xs. decodesTo L (encode x) (render x) \<and> encode x \<noteq> [] \<and>
             hd (encode x) \<noteq> breakByte"
  shows "\<exists>f0. \<forall>f\<ge>f0. \<forall>i len2 rest b lg.
           arrayLoop L bufferWrite f i len2 True (concat (map encode xs) @ breakByte # rest) (b, lg)
             = Some (Inr rest, (b @ joinWith 0x2C (map render xs) @ [0x5D], lg))"
  using assms
proof (induction xs)
  case Nil
  have "arrayLoop L bufferWrite f i len2 True (breakByte # rest) (b, lg)
          = Some (Inr rest, (b @ [0x5D], lg))"
    if "1 \<le> f" for f i len2 rest b lg
    using that by (cases f) (simp_all add: arrayLoop.simps breakByte_def)
  then show ?case by (intro exI [of _ 1]) simp
next
  case (Cons x xs)
  from Cons.prems have "decodesTo L (encode x) (render x)" by simp
  then obtain fx where fx0: "\<forall>f\<ge>fx. \<forall>rest b lg.
      cbor2JsonOneObject L bufferWrite f (encode x @ rest) (b, lg)
        = Some (Inr rest, (b @ render x, lg))"
    unfolding decodesTo_def by blast
  note fx = fx0 [rule_format]
  from Cons.prems have hx: "encode x \<noteq> []" "hd (encode x) \<noteq> breakByte" by auto
  from Cons.prems have "\<forall>x\<in>set xs. decodesTo L (encode x) (render x) \<and> encode x \<noteq> [] \<and>
             hd (encode x) \<noteq> breakByte" by simp
  from Cons.IH [OF this]
  obtain fs where fs0: "\<forall>f\<ge>fs. \<forall>i len2 rest b lg.
      arrayLoop L bufferWrite f i len2 True (concat (map encode xs) @ breakByte # rest) (b, lg)
        = Some (Inr rest, (b @ joinWith 0x2C (map render xs) @ [0x5D], lg))"
    by blast
  note fs = fs0 [rule_format]
  have "arrayLoop L bufferWrite f i len2 True (concat (map encode (x # xs)) @ breakByte # rest) (b, lg)
          = Some (Inr rest, (b @ joinWith 0x2C (map render (x # xs)) @ [0x5D], lg))"
    if f: "Suc (max fx fs) \<le> f" for f i len2 rest b lg
  proof -
    from f obtain f' where f': "f = Suc f'" "fx \<le> f'" "fs \<le> f'" by (cases f) auto
    from hx have h: "encode x @ t \<noteq> []" "hd (encode x @ t) \<noteq> breakByte" for t by auto
    show ?thesis
    proof (cases xs)
      case Nil
      then show ?thesis
        unfolding f'(1)
        by (subst arrayLoop.simps)
           (simp add: h [unfolded breakByte_def] fx [OF f'(2)] breakByte_def)
    next
      case (Cons y ys)
      with Cons.prems
      have hy: "encode y \<noteq> []" "hd (encode y) \<noteq> breakByte" by auto
      then obtain py ty where py: "encode y = py # ty" "py \<noteq> breakByte"
        by (cases "encode y") auto
      from fs [OF f'(3), of "i + 1" len2 rest "b @ render x @ [0x2C]" lg] Cons py
      show ?thesis
        unfolding f'(1)
        by (subst arrayLoop.simps)
           (simp add: h [unfolded breakByte_def] fx [OF f'(2)] breakByte_def)
    qed
  qed
  then show ?case by blast
qed

lemma parity_facts:
  "even (i::int) \<Longrightarrow> i mod 2 = 0" "even (i::int) \<Longrightarrow> (i + 1) mod 2 \<noteq> 0"
  "even (i::int) \<Longrightarrow> even (i + 1 + 1)"
  by presburger+

lemma pairs_Nil [simp]: "(pairs xs = []) = (xs = [])"
  by (cases xs rule: pairs.cases) auto

text \<open>The loop of a definite-length map, at a key, on the encodings of the items to come.\<close>

lemma mapLoop_definite:
  assumes "\<forall>x\<in>set xs. decodesTo L (encode x) (render x)"
  shows "\<exists>f0. \<forall>f\<ge>f0. \<forall>i l rest b lg. even i \<longrightarrow> i + int (length xs) = l \<longrightarrow>
           mapLoop L bufferWrite f i l False (concat (map encode xs) @ rest) (b, lg)
             = Some (Inr rest, (b @ joinWith 0x2C (pairs (map render xs)) @ [0x7D], lg))"
  using assms
proof (induction xs rule: induct_list012)
  case 1
  have "mapLoop L bufferWrite f i i False rest (b, lg) = Some (Inr rest, (b @ [0x7D], lg))"
    if "1 \<le> f" for f i rest b lg
    using that by (cases f) (simp_all add: mapLoop.simps)
  then show ?case by (intro exI [of _ 1]) simp
next
  case (2 k)
  then have "decodesTo L (encode k) (render k)" by simp
  then obtain fk where fk0: "\<forall>f\<ge>fk. \<forall>rest b lg.
      cbor2JsonOneObject L bufferWrite f (encode k @ rest) (b, lg)
        = Some (Inr rest, (b @ render k, lg))"
    unfolding decodesTo_def by blast
  note fk = fk0 [rule_format]
  have "mapLoop L bufferWrite f i l False (concat (map encode [k]) @ rest) (b, lg)
          = Some (Inr rest, (b @ joinWith 0x2C (pairs (map render [k])) @ [0x7D], lg))"
    if f: "Suc (Suc fk) \<le> f" and e: "even i" and l: "i + int (length [k]) = l"
    for f i l rest b lg
  proof -
    from f obtain f'' where f': "f = Suc (Suc f'')" "fk \<le> Suc f''"
      by (cases f; cases "f - 1") auto
    from l have c: "i < l" "\<not> i + 1 < l" by auto
    show ?thesis
      unfolding f'(1)
      by (subst mapLoop.simps, subst mapLoop.simps)
         (simp add: c fk [OF f'(2)] parity_facts(1) [OF e])
  qed
  then show ?case by blast
next
  case (3 k v zs)
  from 3(3) have "decodesTo L (encode k) (render k)" "decodesTo L (encode v) (render v)"
    by simp_all
  then obtain fk fv where fk0: "\<forall>f\<ge>fk. \<forall>rest b lg.
      cbor2JsonOneObject L bufferWrite f (encode k @ rest) (b, lg)
        = Some (Inr rest, (b @ render k, lg))"
    and fv0: "\<forall>f\<ge>fv. \<forall>rest b lg.
      cbor2JsonOneObject L bufferWrite f (encode v @ rest) (b, lg)
        = Some (Inr rest, (b @ render v, lg))"
    unfolding decodesTo_def by blast
  note fk = fk0 [rule_format] and fv = fv0 [rule_format]
  from 3(3) have "\<forall>x\<in>set zs. decodesTo L (encode x) (render x)" by simp
  from 3(1) [OF this]
  obtain fs where fs0: "\<forall>f\<ge>fs. \<forall>i l rest b lg. even i \<longrightarrow> i + int (length zs) = l \<longrightarrow>
           mapLoop L bufferWrite f i l False (concat (map encode zs) @ rest) (b, lg)
             = Some (Inr rest, (b @ joinWith 0x2C (pairs (map render zs)) @ [0x7D], lg))"
    by blast
  note fs = fs0 [rule_format]
  have "mapLoop L bufferWrite f i l False (concat (map encode (k # v # zs)) @ rest) (b, lg)
          = Some (Inr rest, (b @ joinWith 0x2C (pairs (map render (k # v # zs))) @ [0x7D], lg))"
    if f: "Suc (Suc (max fk (max fv fs))) \<le> f" and e: "even i"
      and l: "i + int (length (k # v # zs)) = l"
    for f i l rest b lg
  proof -
    from f obtain f'' where f': "f = Suc (Suc f'')" "fk \<le> Suc f''" "fv \<le> f''" "fs \<le> f''"
      by (cases f; cases "f - 1") auto
    from l have c: "i < l" "i + 1 < l" "(i + 1 + 1 < l) = (zs \<noteq> [])"
      "i + 1 + 1 + int (length zs) = l" "(2 + i < l) = (zs \<noteq> [])"
      by auto
    from fs [OF f'(4) parity_facts(3) [OF e] c(4), of rest "b @ render k @ 0x3A # render v" lg]
      fs [OF f'(4) parity_facts(3) [OF e] c(4), of rest "b @ render k @ 0x3A # render v @ [0x2C]" lg]
    show ?thesis
      unfolding f'(1)
      by (subst mapLoop.simps, subst mapLoop.simps)
         (cases zs; simp add: c fk [OF f'(2)] fv [OF f'(3)] parity_facts(1,2) [OF e]
            joinWith_Cons)
  qed
  then show ?case by blast
qed

text \<open>The loop of an indefinite-length map, at a key, up to and with the break byte.\<close>

lemma mapLoop_indefinite:
  assumes "\<forall>x\<in>set xs. decodesTo L (encode x) (render x) \<and> encode x \<noteq> [] \<and>
             hd (encode x) \<noteq> breakByte"
  shows "\<exists>f0. \<forall>f\<ge>f0. \<forall>i l rest b lg. even i \<longrightarrow>
           mapLoop L bufferWrite f i l True (concat (map encode xs) @ breakByte # rest) (b, lg)
             = Some (Inr rest, (b @ joinWith 0x2C (pairs (map render xs)) @ [0x7D], lg))"
  using assms
proof (induction xs rule: induct_list012)
  case 1
  have "mapLoop L bufferWrite f i l True (breakByte # rest) (b, lg)
          = Some (Inr rest, (b @ [0x7D], lg))"
    if "1 \<le> f" for f i l rest b lg
    using that by (cases f) (simp_all add: mapLoop.simps breakByte_def)
  then show ?case by (intro exI [of _ 1]) simp
next
  case (2 k)
  then have "decodesTo L (encode k) (render k)" and hk: "encode k \<noteq> []" "hd (encode k) \<noteq> breakByte"
    by simp_all
  then obtain fk where fk0: "\<forall>f\<ge>fk. \<forall>rest b lg.
      cbor2JsonOneObject L bufferWrite f (encode k @ rest) (b, lg)
        = Some (Inr rest, (b @ render k, lg))"
    unfolding decodesTo_def by blast
  note fk = fk0 [rule_format]
  have "mapLoop L bufferWrite f i l True (concat (map encode [k]) @ breakByte # rest) (b, lg)
          = Some (Inr rest, (b @ joinWith 0x2C (pairs (map render [k])) @ [0x7D], lg))"
    if f: "Suc (Suc fk) \<le> f" and e: "even i" for f i l rest b lg
  proof -
    from f obtain f'' where f': "f = Suc (Suc f'')" "fk \<le> Suc f''"
      by (cases f; cases "f - 1") auto
    from hk have h: "encode k @ t \<noteq> []" "hd (encode k @ t) \<noteq> breakByte" for t by auto
    show ?thesis
      unfolding f'(1)
      by (subst mapLoop.simps, subst mapLoop.simps)
         (simp add: h [unfolded breakByte_def] fk [OF f'(2)] parity_facts(1) [OF e]
            breakByte_def)
  qed
  then show ?case by blast
next
  case (3 k v zs)
  from 3(3) have "decodesTo L (encode k) (render k)" "decodesTo L (encode v) (render v)"
    and hk: "encode k \<noteq> []" "hd (encode k) \<noteq> breakByte"
    and hv: "encode v \<noteq> []" "hd (encode v) \<noteq> breakByte"
    by simp_all
  then obtain fk fv where fk0: "\<forall>f\<ge>fk. \<forall>rest b lg.
      cbor2JsonOneObject L bufferWrite f (encode k @ rest) (b, lg)
        = Some (Inr rest, (b @ render k, lg))"
    and fv0: "\<forall>f\<ge>fv. \<forall>rest b lg.
      cbor2JsonOneObject L bufferWrite f (encode v @ rest) (b, lg)
        = Some (Inr rest, (b @ render v, lg))"
    unfolding decodesTo_def by blast
  note fk = fk0 [rule_format] and fv = fv0 [rule_format]
  from 3(3) have "\<forall>x\<in>set zs. decodesTo L (encode x) (render x) \<and> encode x \<noteq> [] \<and>
             hd (encode x) \<noteq> breakByte" by simp
  from 3(1) [OF this]
  obtain fs where fs0: "\<forall>f\<ge>fs. \<forall>i l rest b lg. even i \<longrightarrow>
           mapLoop L bufferWrite f i l True (concat (map encode zs) @ breakByte # rest) (b, lg)
             = Some (Inr rest, (b @ joinWith 0x2C (pairs (map render zs)) @ [0x7D], lg))"
    by blast
  note fs = fs0 [rule_format]
  have "mapLoop L bufferWrite f i l True (concat (map encode (k # v # zs)) @ breakByte # rest) (b, lg)
          = Some (Inr rest, (b @ joinWith 0x2C (pairs (map render (k # v # zs))) @ [0x7D], lg))"
    if f: "Suc (Suc (max fk (max fv fs))) \<le> f" and e: "even i" for f i l rest b lg
  proof -
    from f obtain f'' where f': "f = Suc (Suc f'')" "fk \<le> Suc f''" "fv \<le> f''" "fs \<le> f''"
      by (cases f; cases "f - 1") auto
    from hk have h: "encode k @ t \<noteq> []" "hd (encode k @ t) \<noteq> breakByte" for t by auto
    from hv have h': "encode v @ t \<noteq> []" "hd (encode v @ t) \<noteq> breakByte" for t by auto
    show ?thesis
    proof (cases zs)
      case Nil
      then show ?thesis
        unfolding f'(1)
        by (subst mapLoop.simps, subst mapLoop.simps)
           (simp add: h [unfolded breakByte_def] h' [unfolded breakByte_def] fk [OF f'(2)]
              fv [OF f'(3)] parity_facts(1,2) [OF e] breakByte_def)
    next
      case (Cons y ys)
      with 3(3) have hy: "encode y \<noteq> []" "hd (encode y) \<noteq> breakByte" by auto
      then obtain py ty where py: "encode y = py # ty" "py \<noteq> breakByte"
        by (cases "encode y") auto
      from fs [OF f'(4) parity_facts(3) [OF e], of l rest "b @ render k @ 0x3A # render v @ [0x2C]" lg]
        Cons py
      show ?thesis
        unfolding f'(1)
        by (subst mapLoop.simps, subst mapLoop.simps)
           (simp add: h [unfolded breakByte_def] h' [unfolded breakByte_def] fk [OF f'(2)]
              fv [OF f'(3)] parity_facts(1,2) [OF e] breakByte_def joinWith_Cons)
    qed
  qed
  then show ?case by blast
qed

text \<open>Every well-formed item decodes to its rendering.\<close>

lemma decodesTo_item: "wf t \<Longrightarrow> decodesTo L (encode t) (render t)"
proof (induction t)
  case (Num n)
  then show ?case by (intro decodesTo_Num) simp_all
next
  case (Bool v)
  show ?case by (rule decodesTo_Bool)
next
  case Null
  show ?case by (rule decodesTo_Null)
next
  case (Arr u xs)
  then have el: "\<forall>x\<in>set xs. decodesTo L (encode x) (render x)"
    and wfx: "\<forall>x\<in>set xs. wf x" and len: "length xs < 2 ^ 63"
    by (auto simp: list_all_iff)
  have head: "isArrayHead (encode (Arr u xs) @ rest)" for rest
    using encode_hd [of "Arr u xs" rest] Arr.prems by blast
  show ?case
  proof (cases u)
    case True
    from el wfx have "\<forall>x\<in>set xs. decodesTo L (encode x) (render x) \<and> encode x \<noteq> [] \<and>
             hd (encode x) \<noteq> breakByte"
      using encode_hd by blast
    from arrayLoop_indefinite [OF this]
    obtain f0 where f0: "\<forall>f\<ge>f0. \<forall>i len2 rest b lg.
           arrayLoop L bufferWrite f i len2 True (concat (map encode xs) @ breakByte # rest) (b, lg)
             = Some (Inr rest, (b @ joinWith 0x2C (map render xs) @ [0x5D], lg))"
      by blast
    have "cbor2JsonOneObject L bufferWrite f (encode (Arr u xs) @ rest) (b, lg)
            = Some (Inr rest, (b @ render (Arr u xs), lg))"
      if "Suc (Suc f0) \<le> f" for f rest b lg
    proof -
      from that obtain f'' where f': "f = Suc (Suc f'')" "f0 \<le> f''"
        by (cases f; cases "f - 1") auto
      from head [of rest] have "cbor2JsonOneObject L bufferWrite f (encode (Arr u xs) @ rest) (b, lg)
          = array2Json L bufferWrite (Suc f'') (encode (Arr u xs) @ rest) (b, lg)"
        unfolding f'(1) by (rule obj_array)
      with True f0 [rule_format, OF f'(2)] show ?thesis
        by (simp add: array2Json_indefinite breakByte_def)
    qed
    then show ?thesis unfolding decodesTo_def by blast
  next
    case False
    from arrayLoop_definite [OF el]
    obtain f0 where f0: "\<forall>f\<ge>f0. \<forall>i len2 rest b lg. i + int (length xs) = len2 \<longrightarrow>
           arrayLoop L bufferWrite f i len2 False (concat (map encode xs) @ rest) (b, lg)
             = Some (Inr rest, (b @ joinWith 0x2C (map render xs) @ [0x5D], lg))"
      by blast
    from len have fit: "fits (minWidth (length xs)) (length xs)" by (intro fits_minWidth) simp
    have "cbor2JsonOneObject L bufferWrite f (encode (Arr u xs) @ rest) (b, lg)
            = Some (Inr rest, (b @ render (Arr u xs), lg))"
      if "Suc (Suc f0) \<le> f" for f rest b lg
    proof -
      from that obtain f'' where f': "f = Suc (Suc f'')" "f0 \<le> f''"
        by (cases f; cases "f - 1") auto
      from head [of rest] have "cbor2JsonOneObject L bufferWrite f (encode (Arr u xs) @ rest) (b, lg)
          = array2Json L bufferWrite (Suc f'') (encode (Arr u xs) @ rest) (b, lg)"
        unfolding f'(1) by (rule obj_array)
      with False f0 [rule_format, OF f'(2)] show ?thesis
        by (simp add: array2Json_definite [OF fit len])
    qed
    then show ?thesis unfolding decodesTo_def by blast
  qed
next
  case (Map u xs)
  then have el: "\<forall>x\<in>set xs. decodesTo L (encode x) (render x)"
    and wfx: "\<forall>x\<in>set xs. wf x" and len: "length xs < 2 ^ 63"
    by (auto simp: list_all_iff)
  have head: "isMapHead (encode (Map u xs) @ rest)" for rest
    using encode_hd [of "Map u xs" rest] Map.prems by blast
  show ?case
  proof (cases u)
    case True
    from el wfx have "\<forall>x\<in>set xs. decodesTo L (encode x) (render x) \<and> encode x \<noteq> [] \<and>
             hd (encode x) \<noteq> breakByte"
      using encode_hd by blast
    from mapLoop_indefinite [OF this]
    obtain f0 where f0: "\<forall>f\<ge>f0. \<forall>i l rest b lg. even i \<longrightarrow>
           mapLoop L bufferWrite f i l True (concat (map encode xs) @ breakByte # rest) (b, lg)
             = Some (Inr rest, (b @ joinWith 0x2C (pairs (map render xs)) @ [0x7D], lg))"
      by blast
    have "cbor2JsonOneObject L bufferWrite f (encode (Map u xs) @ rest) (b, lg)
            = Some (Inr rest, (b @ render (Map u xs), lg))"
      if "Suc (Suc f0) \<le> f" for f rest b lg
    proof -
      from that obtain f'' where f': "f = Suc (Suc f'')" "f0 \<le> f''"
        by (cases f; cases "f - 1") auto
      from head [of rest] have "cbor2JsonOneObject L bufferWrite f (encode (Map u xs) @ rest) (b, lg)
          = map2Json L bufferWrite (Suc f'') (encode (Map u xs) @ rest) (b, lg)"
        unfolding f'(1) by (rule obj_map)
      with True f0 [rule_format, OF f'(2)] show ?thesis
        by (simp add: map2Json_indefinite breakByte_def)
    qed
    then show ?thesis unfolding decodesTo_def by blast
  next
    case False
    from mapLoop_definite [OF el]
    obtain f0 where f0: "\<forall>f\<ge>f0. \<forall>i l rest b lg. even i \<longrightarrow> i + int (length xs) = l \<longrightarrow>
           mapLoop L bufferWrite f i l False (concat (map encode xs) @ rest) (b, lg)
             = Some (Inr rest, (b @ joinWith 0x2C (pairs (map render xs)) @ [0x7D], lg))"
      by blast
    from len have fit: "fits (minWidth (length xs)) (length xs)" by (intro fits_minWidth) simp
    have "cbor2JsonOneObject L bufferWrite f (encode (Map u xs) @ rest) (b, lg)
            = Some (Inr rest, (b @ render (Map u xs), lg))"
      if "Suc (Suc f0) \<le> f" for f rest b lg
    proof -
      from that obtain f'' where f': "f = Suc (Suc f'')" "f0 \<le> f''"
        by (cases f; cases "f - 1") auto
      from head [of rest] have "cbor2JsonOneObject L bufferWrite f (encode (Map u xs) @ rest) (b, lg)
          = map2Json L bufferWrite (Suc f'') (encode (Map u xs) @ rest) (b, lg)"
        unfolding f'(1) by (rule obj_map)
      with False f0 [rule_format, OF f'(2)] show ?thesis
        by (simp add: map2Json_definite [OF fit len])
    qed
    then show ?thesis unfolding decodesTo_def by blast
  qed
qed

text \<open>With the fuel of the entry points.\<close>

lemma item_decodes:
  assumes "wf t"
  shows "cbor2JsonOneObject L bufferWrite (fuel (encode t @ rest)) (encode t @ rest) (b, lg)
           = Some (Inr rest, (b @ render t, lg))"
proof -
  from decodesTo_item [OF assms, of L]
  obtain f0 where f0: "\<forall>f\<ge>f0. \<forall>rest b lg.
        cbor2JsonOneObject L bufferWrite f (encode t @ rest) (b, lg)
          = Some (Inr rest, (b @ render t, lg))"
    unfolding decodesTo_def by blast
  let ?src = "encode t @ rest"
  let ?F = "max f0 (fuel ?src)"
  have "cbor2JsonOneObject L bufferWrite (fuel ?src) ?src (b, lg)
          = cbor2JsonOneObject L bufferWrite ?F ?src (b, lg)"
    by (rule cbor2JsonOneObject_fuel) (simp_all add: fuel_def)
  also have "\<dots> = Some (Inr rest, (b @ render t, lg))"
    using f0 by simp
  finally show ?thesis .
qed

section \<open>Brackets\<close>

lemma count_joinWith:
  "c \<noteq> s \<Longrightarrow> count_list (joinWith s xss) c = sum_list (map (\<lambda>x. count_list x c) xss)"
  by (induction s xss rule: joinWith.induct) simp_all

lemma count_pairs:
  "c \<noteq> 0x3A \<Longrightarrow> sum_list (map (\<lambda>x. count_list x c) (pairs xss))
     = sum_list (map (\<lambda>x. count_list x c) xss)"
  by (induction xss rule: pairs.induct) simp_all

lemma digits_isDigit: "list_all isDigit (digits n)"
  using plainDecimal_digits [of n] by (simp add: plainDecimal_def)

lemma count_Itoa: "\<not> isDigit c \<Longrightarrow> c \<noteq> 45 \<Longrightarrow> count_list (Itoa n) c = 0"
  using digits_isDigit [of "nat n"] digits_isDigit [of "nat (- n)"]
  by (auto simp: Itoa_def list_all_iff count_list_0_iff)

lemma count_render_array:
  "c = 0x5B \<or> c = 0x5D \<Longrightarrow> count_list (render t) c = arrays t"
  by (induction t)
     (auto simp: count_joinWith count_pairs count_Itoa isDigit_def str_def comp_def
        cong: map_cong)

lemma count_render_map:
  "c = 0x7B \<or> c = 0x7D \<Longrightarrow> count_list (render t) c = maps t"
  by (induction t)
     (auto simp: count_joinWith count_pairs count_Itoa isDigit_def str_def comp_def
        cong: map_cong)

section \<open>Depth of a linear nesting\<close>

lemma sum_one_nonzero:
  "length (filter (\<lambda>n. n \<noteq> 0) ns) \<le> 1 \<Longrightarrow> sum_list ns = foldr max ns (0::nat)"
proof (induction ns)
  case Nil
  show ?case by simp
next
  case (Cons n ns)
  show ?case
  proof (cases "n = 0")
    case True
    with Cons show ?thesis by simp
  next
    case False
    with Cons.prems have "filter (\<lambda>n. n \<noteq> 0) ns = []" by simp
    then have z: "\<forall>m\<in>set ns. m = 0" by (simp add: filter_empty_conv)
    then have "sum_list ns = 0" by simp
    moreover from z have "foldr max ns 0 = 0" by (induction ns) simp_all
    ultimately show ?thesis by simp
  qed
qed

lemma depth_zero: "depth t = 0 \<longleftrightarrow> \<not> isContainer t"
  by (cases t) simp_all

lemma linear_depth: "linear t \<Longrightarrow> arrays t + maps t = depth t"
proof (induction t)
  case (Arr u xs)
  then have ih: "\<forall>x\<in>set xs. arrays x + maps x = depth x" by (simp add: list_all_iff)
  then have m: "map (\<lambda>x. arrays x + maps x) xs = map depth xs" by simp
  have "filter (\<lambda>n. n \<noteq> 0) (map depth xs) = map depth (filter isContainer xs)"
    by (induction xs) (simp_all add: depth_zero)
  with Arr.prems have "length (filter (\<lambda>n. n \<noteq> 0) (map depth xs)) \<le> 1" by simp
  then have "sum_list (map depth xs) = foldr max (map depth xs) 0"
    by (rule sum_one_nonzero)
  moreover have "sum_list (map arrays xs) + sum_list (map maps xs)
      = sum_list (map (\<lambda>x. arrays x + maps x) xs)"
    by (simp add: sum_list_addf)
  ultimately show ?case by (simp add: m)
next
  case (Map u xs)
  then have ih: "\<forall>x\<in>set xs. arrays x + maps x = depth x" by (simp add: list_all_iff)
  then have m: "map (\<lambda>x. arrays x + maps x) xs = map depth xs" by simp
  have "filter (\<lambda>n. n \<noteq> 0) (map depth xs) = map depth (filter isContainer xs)"
    by (induction xs) (simp_all add: depth_zero)
  with Map.prems have "length (filter (\<lambda>n. n \<noteq> 0) (map depth xs)) \<le> 1" by simp
  then have "sum_list (map depth xs) = foldr max (map depth xs) 0"
    by (rule sum_one_nonzero)
  moreover have "sum_list (map arrays xs) + sum_list (map maps xs)
      = sum_list (map (\<lambda>x. arrays x + maps x) xs)"
    by (simp add: sum_list_addf)
  ultimately show ?case by (simp add: m)
qed simp_all

text \<open>
  Claim C6.  For every nesting \<open>t\<close> of arrays and maps (definite and indefinite encodings
  mixed at will, every map with a value for each key), the dispatcher on the encoding of \<open>t\<close>
  followed by any input \<open>rest\<close> reads exactly the encoding and appends \<open>render t\<close> to the
  buffer: each array in brackets and each map in braces, a comma between any two neighbouring
  elements (pairs, in a map) and none before the first or after the last.  The text has as
  many opening as closing brackets, one pair for each array, and as many opening as closing
  braces, one pair for each map; for one nest of arrays and maps of depth \<open>D\<close> these are
  \<open>D\<close> pairs.
\<close>

theorem C6_nesting:
  assumes "wf t" "evenMaps t"
  shows "cbor2JsonOneObject L bufferWrite (fuel (encode t @ rest)) (encode t @ rest) (b, lg)
           = Some (Inr rest, (b @ render t, lg)) \<and>
         count_list (render t) 0x5B = arrays t \<and> count_list (render t) 0x5D = arrays t \<and>
         count_list (render t) 0x7B = maps t \<and> count_list (render t) 0x7D = maps t \<and>
         (linear t \<longrightarrow> arrays t + maps t = depth t)"
  using item_decodes [OF assms(1), where L=L and rest=rest and b=b and lg=lg]
    linear_depth [of t]
  by (simp add: count_render_array count_render_map)

lemmas encode_eval = encodeInt_def encodeHead_def minWidth_def widthCode_def const_defs
  Itoa_def digits.simps str_def

text \<open>The witness: \<^verbatim>\<open>[{1:[2,3]}]\<close>, an indefinite array around a definite map around a definite array.\<close>

theorem C6_nesting_witness:
  "cbor2JsonOneObject stubLib bufferWrite (fuel [0x9F, 0xA2, 0x01, 0x82, 0x02, 0x03, 0xFF])
     [0x9F, 0xA2, 0x01, 0x82, 0x02, 0x03, 0xFF] ([], [])
     = Some (Inr [], (str ''[{1:[2,3]}]'', [])) \<and>
   encode (Arr True [Map False [Num 1, Arr False [Num 2, Num 3]]])
     = [0x9F, 0xA2, 0x01, 0x82, 0x02, 0x03, 0xFF] \<and>
   count_list (str ''[{1:[2,3]}]'') 0x5B = 2 \<and> count_list (str ''[{1:[2,3]}]'') 0x5D = 2 \<and>
   count_list (str ''[{1:[2,3]}]'') 0x7B = 1 \<and> count_list (str ''[{1:[2,3]}]'') 0x7D = 1 \<and>
   depth (Arr True [Map False [Num 1, Arr False [Num 2, Num 3]]]) = 3"
proof -
  let ?t = "Arr True [Map False [Num 1, Arr False [Num 2, Num 3]]]"
  have e: "encode ?t = [0x9F, 0xA2, 0x01, 0x82, 0x02, 0x03, 0xFF]"
    by (simp add: encode_eval)
  have r: "render ?t = str ''[{1:[2,3]}]''"
    by (simp add: encode_eval)
  have h: "wf ?t" "evenMaps ?t" "linear ?t" by simp_all
  from C6_nesting [OF h(1,2), of stubLib "[]" "[]" "[]"] h(3) show ?thesis
    unfolding e r by simp
qed

lemma joinWith_pairs_odd:
  "odd (length xs) \<Longrightarrow> \<exists>pre. joinWith s (pairs xs) = pre @ last xs @ [0x3A]"
proof (induction xs rule: induct_list012)
  case 1
  then show ?case by simp
next
  case (2 k)
  show ?case by simp
next
  case (3 k v zs)
  then have "zs \<noteq> []" by auto
  with 3 obtain pre where "joinWith s (pairs zs) = pre @ last zs @ [0x3A]" by auto
  with \<open>zs \<noteq> []\<close> show ?case by (simp add: joinWith_Cons)
qed

text \<open>
  Claim C10.  For every definite-length map with an odd count of items, each a well-formed
  item, the decoder raises no fault: it reads the whole map and appends its text, which ends
  with the last item (a key without a value), a colon and the closing brace.
\<close>

theorem C10_odd_map:
  assumes "odd (length xs)" "length xs < 2 ^ 63" "list_all wf xs"
  shows "cbor2JsonOneObject L bufferWrite (fuel (encode (Map False xs) @ rest))
           (encode (Map False xs) @ rest) (b, lg)
           = Some (Inr rest, (b @ render (Map False xs), lg)) \<and>
         (\<exists>pre. render (Map False xs) = pre @ render (last xs) @ [0x3A, 0x7D])"
proof -
  from assms have "wf (Map False xs)" by simp
  from item_decodes [OF this, where L=L and rest=rest and b=b and lg=lg]
  have 1: "cbor2JsonOneObject L bufferWrite (fuel (encode (Map False xs) @ rest))
           (encode (Map False xs) @ rest) (b, lg)
           = Some (Inr rest, (b @ render (Map False xs), lg))" .
  from assms(1) have ne: "xs \<noteq> []" by auto
  from assms(1) have "odd (length (map render xs))" by simp
  from joinWith_pairs_odd [OF this, where s = "0x2C"] ne
  obtain pre where "joinWith 0x2C (pairs (map render xs)) = pre @ render (last xs) @ [0x3A]"
    by (auto simp: last_map)
  then have "render (Map False xs) = (0x7B # pre) @ render (last xs) @ [0x3A, 0x7D]"
    by simp
  with 1 show ?thesis by blast
qed

text \<open>The witness: the map of the three items 1, 2, 3 is decoded to \<^verbatim>\<open>{1:2,3:}\<close>.\<close>

theorem C10_odd_map_witness:
  "cbor2JsonOneObject stubLib bufferWrite (fuel [0xA3, 0x01, 0x02, 0x03])
     [0xA3, 0x01, 0x02, 0x03] ([], [])
     = Some (Inr [], (str ''{1:2,3:}'', [])) \<and>
   encode (Map False [Num 1, Num 2, Num 3]) = [0xA3, 0x01, 0x02, 0x03]"
proof -
  have e: "encode (Map False [Num 1, Num 2, Num 3]) = [0xA3, 0x01, 0x02, 0x03]"
    by (simp add: encode_eval)
  have r: "render (Map False [Num 1, Num 2, Num 3]) = str ''{1:2,3:}''"
    by (simp add: encode_eval)
  have h: "odd (length [Num 1, Num 2, Num 3])" "length [Num 1, Num 2, Num 3] < 2 ^ 63"
    "list_all wf [Num 1, Num 2, Num 3]" by simp_all
  from C10_odd_map [OF h, of stubLib "[]" "[]" "[]"] show ?thesis
    unfolding e r by simp
qed

section \<open>UTF-8 strings\<close>

lemma hexTable_nth: "d < 16 \<Longrightarrow> hexTable ! d = hexDigit d"
proof -
  assume "d < 16"
  then have "d = 0 \<or> d = 1 \<or> d = 2 \<or> d = 3 \<or> d = 4 \<or> d = 5 \<or> d = 6 \<or> d = 7 \<or>
             d = 8 \<or> d = 9 \<or> d = 10 \<or> d = 11 \<or> d = 12 \<or> d = 13 \<or> d = 14 \<or> d = 15"
    by arith
  then show ?thesis
    by (elim disjE; simp add: hexTable_def str_def hexDigit_def)
qed

lemma nibbles:
  "unat (drop_bit 4 (b::byte)) = unat b div 16" "unat (b AND 0xF) = unat b mod 16"
proof -
  show "unat (drop_bit 4 b) = unat b div 16"
    by (simp add: unat_drop_bit_eq drop_bit_eq_div unat_div)
  have "b AND 0xF = take_bit 4 b" by (simp add: take_bit_eq_mask mask_eq_exp_minus_1)
  then show "unat (b AND 0xF) = unat b mod 16"
    by (simp add: unsigned_take_bit_eq take_bit_eq_mod unat_mod)
qed

lemma escapeByte_jsonEscape: "escapeByte b = jsonEscape b"
proof -
  have "unat b < 256" using unsigned_less [of b, where 'a=nat] by simp
  then have "unat b div 16 < 16" "unat b mod 16 < 16" by auto
  then show ?thesis
    by (simp add: escapeByte_def jsonEscape_def nibbles hexTable_nth)
qed

lemma needsEncoding_plain: "needsEncoding b \<longleftrightarrow> \<not> plainByte b"
  by (auto simp: needsEncoding_def plainByte_def)

lemma plain_low: "plainByte b \<Longrightarrow> \<not> b \<ge> 0x80"
  by (auto simp: plainByte_def word_le_nat_alt)

lemma escapeJSON_plain_append:
  "list_all plainByte xs \<Longrightarrow> escapeJSON (xs @ ys) = xs @ escapeJSON ys"
  by (induction xs) (auto dest: plain_low)

lemma slice_extend:
  assumes "start \<le> i"
  shows "take (i + n - start) (drop start s) = take (i - start) (drop start s) @ take n (drop i s)"
proof -
  from assms have "i + n - start = (i - start) + n" by simp
  moreover from assms have "drop (i - start) (drop start s) = drop i s" by simp
  ultimately show ?thesis by (simp add: take_add)
qed

text \<open>The loop of \<^verbatim>\<open>decodeStringComplex\<close> copies the pending slice and escapes what follows.\<close>

lemma decodeStringComplex_loop_escapeJSON:
  "start \<le> i \<Longrightarrow>
     decodeStringComplex_loop dst s i start
       = dst @ take (i - start) (drop start s) @ escapeJSON (drop i s)"
proof (induction dst s i start rule: decodeStringComplex_loop.induct)
  case (1 dst s i start)
  show ?case
  proof (cases "i < length s")
    case False
    then show ?thesis
      using 1(5) by (subst decodeStringComplex_loop.simps) simp
  next
    case True
    then have d: "drop i s = s ! i # drop (Suc i) s" by (simp add: Cons_nth_drop_Suc)
    have sl: "(if start < i then dst @ take (i - start) (drop start s) else dst)
                = dst @ take (i - start) (drop start s)"
      using 1(5) by auto
    show ?thesis
    proof (cases "s ! i \<ge> 0x80")
      case hi: True
      show ?thesis
      proof (cases "invalidAt (drop i s)")
        case inv: True
        then have sz: "snd (DecodeRuneInString (drop i s)) = 1" by (simp add: invalidAt_def)
        from inv have c: "fst (DecodeRuneInString (drop i s)) = RuneError \<and>
            snd (DecodeRuneInString (drop i s)) = 1"
          by (simp add: invalidAt_def)
        from 1(1) [OF True hi c] have "decodeStringComplex_loop
            ((if start < i then dst @ take (i - start) (drop start s) else dst) @
             [0x5C, 0x75, 0x66, 0x66, 0x66, 0x64]) s (i + 1) (i + 1)
            = (dst @ take (i - start) (drop start s)) @ [0x5C, 0x75, 0x66, 0x66, 0x66, 0x64] @
              escapeJSON (drop (Suc i) s)"
          by (simp add: sz sl)
        with True hi c inv show ?thesis
          by (subst decodeStringComplex_loop.simps) (simp add: d [symmetric] sz, simp add: d)
      next
        case val: False
        then have c: "\<not> (fst (DecodeRuneInString (drop i s)) = RuneError \<and>
            snd (DecodeRuneInString (drop i s)) = 1)"
          by (simp add: invalidAt_def)
        let ?n = "snd (DecodeRuneInString (drop i s))"
        from 1(5) have "start \<le> i + ?n" by simp
        from 1(2) [OF True hi c this] have "decodeStringComplex_loop dst s (i + ?n) start
            = dst @ take (i + ?n - start) (drop start s) @ escapeJSON (drop (i + ?n) s)" .
        moreover have "escapeJSON (drop i s) = take ?n (drop i s) @ escapeJSON (drop ?n (drop i s))"
          using hi val by (subst d, subst escapeJSON.simps) (simp add: d [symmetric])
        moreover from True hi c have "decodeStringComplex_loop dst s i start
            = decodeStringComplex_loop dst s (i + ?n) start"
          by (subst decodeStringComplex_loop.simps) (simp only: if_True if_False)
        ultimately show ?thesis
          by (simp add: slice_extend [OF 1(5)] add.commute)
      qed
    next
      case lo: False
      show ?thesis
      proof (cases "plainByte (s ! i)")
        case pl: True
        then have p: "s ! i \<ge> 0x20 \<and> s ! i \<le> 0x7E \<and> s ! i \<noteq> 0x5C \<and> s ! i \<noteq> 0x22"
          by (auto simp: plainByte_def)
        from 1(5) have "start \<le> i + 1" by simp
        from 1(3) [OF True lo p this] have "decodeStringComplex_loop dst s (i + 1) start
            = dst @ take (i + 1 - start) (drop start s) @ escapeJSON (drop (i + 1) s)" .
        moreover have "take (i + 1 - start) (drop start s)
            = take (i - start) (drop start s) @ [s ! i]"
          using slice_extend [OF 1(5), of 1 s] d by simp
        ultimately show ?thesis
          using True lo p pl
          by (subst decodeStringComplex_loop.simps) (simp add: d)
      next
        case np: False
        then have p: "\<not> (s ! i \<ge> 0x20 \<and> s ! i \<le> 0x7E \<and> s ! i \<noteq> 0x5C \<and> s ! i \<noteq> 0x22)"
          by (auto simp: plainByte_def)
        from 1(4) [OF True lo p] have "decodeStringComplex_loop
            ((if start < i then dst @ take (i - start) (drop start s) else dst) @
             escapeByte (s ! i)) s (i + 1) (i + 1)
            = (dst @ take (i - start) (drop start s)) @ escapeByte (s ! i) @
              escapeJSON (drop (Suc i) s)"
          by (simp add: sl)
        moreover from True lo p have "decodeStringComplex_loop dst s i start
            = decodeStringComplex_loop
                ((if start < i then dst @ take (i - start) (drop start s) else dst) @
                 escapeByte (s ! i)) s (i + 1) (i + 1)"
          by (subst decodeStringComplex_loop.simps) (simp only: if_True if_False)
        ultimately show ?thesis
          using lo np by (simp add: d escapeByte_jsonEscape)
      qed
    qed
  qed
qed

lemma escapeJSON_plain: "list_all plainByte p \<Longrightarrow> escapeJSON p = p"
  using escapeJSON_plain_append [of p "[]"] by simp

lemma decodeUTF8String_escapeJSON:
  assumes "fits w (length p)" "int (length p) \<le> maxAlloc"
  shows "decodeUTF8String (encodeHead majorTypeUtf8String w (length p) @ p @ rest)
           = Inr (0x22 # escapeJSON p @ [0x22], rest)"
proof -
  from decode_encodeHead [OF isMajor_consts(4) assms(1), of "p @ rest"]
  obtain pb src1 where r: "readByte (encodeHead majorTypeUtf8String w (length p) @ p @ rest) = Inr (pb, src1)"
    and m: "pb AND maskOutAdditionalType = majorTypeUtf8String"
    and d: "decodeIntAdditionalType src1 (pb AND maskOutMajorType) = Inr (of_nat (length p), p @ rest)"
    by blast
  have n: "readNBytes (p @ rest) (sint (of_nat (length p) :: 64 word)) = Inr (p, rest)"
    using assms(2) by (simp add: sint_of_nat_64 readNBytes_def maxAlloc_def)
  let ?i = "length (takeWhile (\<lambda>b. \<not> needsEncoding b) p)"
  have tw: "take ?i p = takeWhile (\<lambda>b. \<not> needsEncoding b) p"
    by (rule takeWhile_eq_take [symmetric])
  have pl: "list_all plainByte (take ?i p)"
    unfolding tw by (auto simp: list_all_iff needsEncoding_plain dest: set_takeWhileD)
  have "escapeJSON p = escapeJSON (take ?i p @ drop ?i p)" by simp
  also have "\<dots> = take ?i p @ escapeJSON (drop ?i p)"
    using pl by (rule escapeJSON_plain_append)
  finally have e: "escapeJSON p = take ?i p @ escapeJSON (drop ?i p)" .
  have c: "decodeStringComplex [0x22] p ?i = 0x22 # escapeJSON p"
    by (simp add: decodeStringComplex_def decodeStringComplex_loop_escapeJSON e [symmetric])
  have f: "\<not> ?i < length p \<Longrightarrow> escapeJSON p = p"
  proof -
    assume "\<not> ?i < length p"
    with length_takeWhile_le [of "\<lambda>b. \<not> needsEncoding b" p] have "?i = length p" by simp
    with pl have "list_all plainByte p" by simp
    then show ?thesis by (rule escapeJSON_plain)
  qed
  from r m d n c f show ?thesis
    by (simp add: decodeUTF8String_def Let_def)
qed

lemmas utf8_eval = DecodeRuneInString_def utf8_first_def acceptRanges_def RuneError_def
  invalidAt_def plainByte_def jsonEscape_def hexDigit_def

text \<open>
  Claim C7, as stated, has every control byte other than the tab become a \<^verbatim>\<open>\u00XX\<close> escape:
  the one-byte payload with a newline (0x0A) would give \<^verbatim>\<open>"\u000a"\<close>.  The decoder gives the
  two-character escape \<^verbatim>\<open>"\n"\<close>.
\<close>

theorem C7_counterexample:
  "decodeUTF8String [0x61, 0x0A] = Inr ([0x22, 0x5C, 0x6E, 0x22], []) \<and>
   decodeUTF8String [0x61, 0x0A] \<noteq> Inr ([0x22, 0x5C, 0x75, 0x30, 0x30, 0x30, 0x61, 0x22], [])"
proof -
  have h: "fits 0 (length [0x0A :: byte])" "int (length [0x0A :: byte]) \<le> maxAlloc"
    by (simp_all add: fits_def maxAlloc_def)
  have e: "escapeJSON [0x0A] = [0x5C, 0x6E]"
    by (simp add: utf8_eval)
  from decodeUTF8String_escapeJSON [OF h, of "[]"] show ?thesis
    unfolding e by (simp add: encodeHead_def const_defs)
qed

text \<open>
  Claim C7, amended.  For every payload \<open>p\<close> (of a length the runtime allocates) under a
  UTF-8 string head of any width that holds its length, followed by any bytes \<open>rest\<close>:
  \<^verbatim>\<open>decodeUTF8String\<close> returns, reads exactly the head and the payload, and yields a double
  quote, \<open>escapeJSON p\<close> and a double quote; the dispatcher writes exactly this text.
  \<open>escapeJSON\<close> goes through the payload from the left: tab, backspace, form feed, newline
  and carriage return become \<^verbatim>\<open>\t \b \f \n \r\<close>, the double quote and the backslash get a
  backslash in front, every other byte below 0x20 and the byte 0x7F become \<^verbatim>\<open>\u00XX\<close> with
  two lower-case hex digits, a byte from 0x80 on at which no valid UTF-8 encoding starts
  becomes \<^verbatim>\<open>\ufffd\<close> (one byte is passed over), a valid multi-byte encoding is copied, and so
  is every other printable ASCII byte.  A payload of plain bytes only is copied unchanged,
  and a plain prefix of any payload is.
\<close>

theorem C7_utf8_string:
  assumes "fits w (length p)" "int (length p) \<le> maxAlloc"
  shows "decodeUTF8String (encodeHead majorTypeUtf8String w (length p) @ p @ rest)
           = Inr (0x22 # escapeJSON p @ [0x22], rest) \<and>
         cbor2JsonOneObject L bufferWrite (Suc f)
             (encodeHead majorTypeUtf8String w (length p) @ p @ rest) (b, lg)
           = Some (Inr rest, (b @ 0x22 # escapeJSON p @ [0x22], lg)) \<and>
         (list_all plainByte p \<longrightarrow> escapeJSON p = p) \<and>
         (\<forall>xs ys. list_all plainByte xs \<longrightarrow> escapeJSON (xs @ ys) = xs @ escapeJSON ys)"
proof -
  note s = decodeUTF8String_escapeJSON [OF assms, of rest]
  from decode_encodeHead [OF isMajor_consts(4) assms(1), of "p @ rest"]
  obtain pb src1 where "readByte (encodeHead majorTypeUtf8String w (length p) @ p @ rest) = Inr (pb, src1)"
    and m: "pb AND maskOutAdditionalType = majorTypeUtf8String"
    by blast
  then have h: "encodeHead majorTypeUtf8String w (length p) @ p @ rest = pb # src1"
    by (auto dest: readByte_Inr)
  have "cbor2JsonOneObject L bufferWrite (Suc f) (pb # src1) (b, lg)
          = Some (Inr rest, (b @ 0x22 # escapeJSON p @ [0x22], lg))"
    using m s [unfolded h]
    by (simp add: cbor2JsonOneObject.simps const_defs)
  with s h show ?thesis
    by (simp add: escapeJSON_plain escapeJSON_plain_append)
qed

theorem C7_utf8_string_witness:
  "decodeUTF8String ([0x66, 0x61, 0x09, 0x22, 0xFF, 0xC3, 0xA9] @ [0x00])
     = Inr ([0x22, 0x61, 0x5C, 0x74, 0x5C, 0x22, 0x5C, 0x75, 0x66, 0x66, 0x66, 0x64, 0xC3, 0xA9, 0x22],
            [0x00]) \<and>
   encodeHead majorTypeUtf8String 0 6 @ [0x61, 0x09, 0x22, 0xFF, 0xC3, 0xA9]
     = [0x66, 0x61, 0x09, 0x22, 0xFF, 0xC3, 0xA9]"
proof -
  have h: "fits 0 (length [0x61, 0x09, 0x22, 0xFF, 0xC3, 0xA9 :: byte])"
    "int (length [0x61, 0x09, 0x22, 0xFF, 0xC3, 0xA9 :: byte]) \<le> maxAlloc"
    by (simp_all add: fits_def maxAlloc_def)
  have e: "escapeJSON [0x61, 0x09, 0x22, 0xFF, 0xC3, 0xA9]
             = [0x61, 0x5C, 0x74, 0x5C, 0x22, 0x5C, 0x75, 0x66, 0x66, 0x66, 0x64, 0xC3, 0xA9]"
    by (simp add: utf8_eval)
  from C7_utf8_string [OF h, of "[0x00]" stubLib 0 "[]" "[]"] show ?thesis
    unfolding e by (simp add: encodeHead_def const_defs)
qed

section \<open>Floats\<close>

lemma bits32_big_endian: "bits32 (big_endian 4 (unat (n :: 32 word))) = n"
proof -
  have "unat n < 256 ^ 4" using unsigned_less [of n, where 'a=nat] by simp
  then show ?thesis by (simp add: bits32_def foldl_big_endian)
qed

lemma bits64_big_endian: "bits64 (big_endian 8 (unat (n :: 64 word))) = n"
proof -
  have "unat n < 256 ^ 8" using unsigned_less [of n, where 'a=nat] by simp
  then show ?thesis by (simp add: bits64_def foldl_big_endian)
qed

lemma inf32: "exponent32 0x7F800000 = 0xFF" "fraction32 0x7F800000 = 0" "\<not> bit (0x7F800000 :: 32 word) 31"
  "exponent32 0xFF800000 = 0xFF" "fraction32 0xFF800000 = 0" "bit (0xFF800000 :: 32 word) 31"
  by (simp_all add: exponent32_def fraction32_def)

lemma inf64: "exponent64 0x7FF0000000000000 = 0x7FF" "fraction64 0x7FF0000000000000 = 0"
  "\<not> bit (0x7FF0000000000000 :: 64 word) 63"
  "exponent64 0xFFF0000000000000 = 0x7FF" "fraction64 0xFFF0000000000000 = 0"
  "bit (0xFFF0000000000000 :: 64 word) 63"
  by (simp_all add: exponent64_def fraction64_def)

lemma decodeSimpleFloat_32:
  assumes "floatPatternsOK L"
  shows "decodeSimpleFloat L (0xFA # big_endian 4 (unat n) @ rest) = Inr (renderFloat32 L n, rest)"
proof -
  let ?pb = "big_endian 4 (unat n)"
  have r: "readNBytes (?pb @ rest) 4 = Inr (?pb, rest)" by (simp add: readNBytes_def maxAlloc_def)
  have b: "foldl (\<lambda>n b. n * 256 + ucast b) (0::32 word) ?pb = n"
    using bits32_big_endian [of n] by (simp add: bits32_def)
  have len: "length ?pb = 4" by (simp add: length_big_endian)
  have nan: "exponent32 n = 0xFF \<and> fraction32 n \<noteq> 0" if "?pb = float32Nan L"
  proof -
    have "length (float32Nan L) = 4" using len that by simp
    moreover have "bits32 (float32Nan L) = n" using bits32_big_endian [of n] that by simp
    ultimately show ?thesis using assms by (simp add: floatPatternsOK_def)
  qed
  have pinf: "n = 0x7F800000" if "?pb = float32PosInfinity L"
  proof -
    have "length (float32PosInfinity L) = 4" using len that by simp
    moreover have "bits32 (float32PosInfinity L) = n" using bits32_big_endian [of n] that by simp
    ultimately show ?thesis using assms by (simp add: floatPatternsOK_def)
  qed
  have ninf: "n = 0xFF800000" if "?pb = float32NegInfinity L"
  proof -
    have "length (float32NegInfinity L) = 4" using len that by simp
    moreover have "bits32 (float32NegInfinity L) = n" using bits32_big_endian [of n] that by simp
    ultimately show ?thesis using assms by (simp add: floatPatternsOK_def)
  qed
  have d: "decodeFloat L (0xFA # ?pb @ rest) =
      Inr ((if ?pb = float32Nan L then NaN
            else if ?pb = float32PosInfinity L then Inf 0
            else if ?pb = float32NegInfinity L then Inf (- 1)
            else Float32frombits n, isFloat32), rest)"
    by (simp add: decodeFloat_def readByte_def const_defs r b)
  show ?thesis
    using nan pinf ninf inf32
    by (auto simp: decodeSimpleFloat_def readByte_def const_defs d [unfolded const_defs]
        renderFloat32_def isFloat32_def isFloat64_def exponent32_def fraction32_def)
qed


lemma decodeSimpleFloat_decodeFloat:
  assumes "decodeFloat L (pb # t) = Inr ((v, bc), rest)" "pb = 0xFA \<or> pb = 0xFB"
  shows "decodeSimpleFloat L (pb # t) =
           (if IsNaN v then Inr (0x22 # str ''NaN'' @ [0x22], rest)
            else if IsInf v 1 then Inr (0x22 # str ''+Inf'' @ [0x22], rest)
            else if IsInf v (- 1) then Inr (0x22 # str ''-Inf'' @ [0x22], rest)
            else if bc = isFloat32 then Inr (appendFloat L v 32, rest)
            else if bc = isFloat64 then Inr (appendFloat L v 64, rest)
            else Inl (Error (str ''invalid Float precision from decodeFloat: '' @ Itoa bc)))"
  using assms by (auto simp: decodeSimpleFloat_def readByte_def const_defs)

lemma decodeSimpleFloat_64:
  assumes "floatPatternsOK L"
  shows "decodeSimpleFloat L (0xFB # big_endian 8 (unat n) @ rest) = Inr (renderFloat64 L n, rest)"
proof -
  let ?pb = "big_endian 8 (unat n)"
  have r: "readNBytes (?pb @ rest) 8 = Inr (?pb, rest)" by (simp add: readNBytes_def maxAlloc_def)
  have b: "foldl (\<lambda>n b. n * 256 + ucast b) (0::64 word) ?pb = n"
    using bits64_big_endian [of n] by (simp add: bits64_def)
  have len: "length ?pb = 8" by (simp add: length_big_endian)
  have nan: "exponent64 n = 0x7FF \<and> fraction64 n \<noteq> 0" if "?pb = float64Nan L"
  proof -
    have "length (float64Nan L) = 8" using len that by simp
    moreover have "bits64 (float64Nan L) = n" using bits64_big_endian [of n] that by simp
    ultimately show ?thesis using assms by (simp add: floatPatternsOK_def)
  qed
  have pinf: "n = 0x7FF0000000000000" if "?pb = float64PosInfinity L"
  proof -
    have "length (float64PosInfinity L) = 8" using len that by simp
    moreover have "bits64 (float64PosInfinity L) = n" using bits64_big_endian [of n] that by simp
    ultimately show ?thesis using assms by (simp add: floatPatternsOK_def)
  qed
  have ninf: "n = 0xFFF0000000000000" if "?pb = float64NegInfinity L"
  proof -
    have "length (float64NegInfinity L) = 8" using len that by simp
    moreover have "bits64 (float64NegInfinity L) = n" using bits64_big_endian [of n] that by simp
    ultimately show ?thesis using assms by (simp add: floatPatternsOK_def)
  qed
  have d: "decodeFloat L (0xFB # ?pb @ rest) =
      Inr ((if ?pb = float64Nan L then NaN
            else if ?pb = float64PosInfinity L then Inf 0
            else if ?pb = float64NegInfinity L then Inf (- 1)
            else Float64frombits n, isFloat64), rest)"
    by (simp add: decodeFloat_def readByte_def const_defs r b)
  note s = decodeSimpleFloat_decodeFloat [OF d]
  consider (a) "?pb = float64Nan L"
    | (b) "?pb \<noteq> float64Nan L" "?pb = float64PosInfinity L"
    | (c) "?pb \<noteq> float64Nan L" "?pb \<noteq> float64PosInfinity L" "?pb = float64NegInfinity L"
    | (d) "?pb \<noteq> float64Nan L" "?pb \<noteq> float64PosInfinity L" "?pb \<noteq> float64NegInfinity L"
    by blast
  then show ?thesis
  proof cases
    case a
    from nan [OF a] have "renderFloat64 L n = 0x22 # str ''NaN'' @ [0x22]"
      by (simp add: renderFloat64_def)
    with s a show ?thesis by simp
  next
    case b
    from pinf [OF b(2)] have "renderFloat64 L n = 0x22 # str ''+Inf'' @ [0x22]"
      by (simp only: renderFloat64_def inf64 if_True if_False simp_thms)
    with s b show ?thesis by simp
  next
    case c
    from ninf [OF c(3)] have "renderFloat64 L n = 0x22 # str ''-Inf'' @ [0x22]"
      by (simp only: renderFloat64_def inf64 if_True if_False simp_thms)
    with s c show ?thesis by simp
  next
    case d
    have "decodeSimpleFloat L (0xFB # ?pb @ rest) =
        (if IsNaN (Float64frombits n) then Inr (0x22 # str ''NaN'' @ [0x22], rest)
         else if IsInf (Float64frombits n) 1 then Inr (0x22 # str ''+Inf'' @ [0x22], rest)
         else if IsInf (Float64frombits n) (- 1) then Inr (0x22 # str ''-Inf'' @ [0x22], rest)
         else Inr (appendFloat L (Float64frombits n) 64, rest))"
      using s d by (simp add: isFloat64_def isFloat32_def)
    then show ?thesis
      by (auto simp: renderFloat64_def exponent64_def fraction64_def)
  qed
qed

lemma big_endian_4:
  "big_endian 4 n = [of_nat (n div 16777216 mod 256), of_nat (n div 65536 mod 256),
     of_nat (n div 256 mod 256), of_nat (n mod 256)]"
proof -
  have 4: "(4::nat) = Suc (Suc (Suc (Suc 0)))" by simp
  show ?thesis unfolding 4 by (simp add: div_mult2_eq [symmetric])
qed

lemma big_endian_8:
  "big_endian 8 n = [of_nat (n div 72057594037927936 mod 256),
     of_nat (n div 281474976710656 mod 256), of_nat (n div 1099511627776 mod 256),
     of_nat (n div 4294967296 mod 256), of_nat (n div 16777216 mod 256),
     of_nat (n div 65536 mod 256), of_nat (n div 256 mod 256), of_nat (n mod 256)]"
proof -
  have 8: "(8::nat) = Suc (Suc (Suc (Suc (Suc (Suc (Suc (Suc 0)))))))" by simp
  show ?thesis unfolding 8 by (simp add: div_mult2_eq [symmetric])
qed

lemma obj_float:
  assumes "decodeSimpleFloat L (pb # xs) = Inr (s, rest)" "pb AND 0xE0 = 0xE0"
  shows "cbor2JsonOneObject L bufferWrite (Suc f) (pb # xs) (b, lg) = Some (Inr rest, (b @ s, lg))"
  using assms by (simp add: cbor2JsonOneObject.simps readByte_def const_defs)

text \<open>
  Claim C8.  Let the six float patterns of the package satisfy \<open>floatPatternsOK\<close>.  For
  every 32-bit pattern \<open>n\<close> and every 64-bit pattern \<open>m\<close>, on the byte 0xFA and the four
  bytes of \<open>n\<close> (0xFB and the eight bytes of \<open>m\<close>) followed by any bytes \<open>rest\<close>,
  \<^verbatim>\<open>decodeSimpleFloat\<close> reads exactly the encoding and returns: the five characters
  \<^verbatim>\<open>"NaN"\<close> for every NaN pattern, the six characters \<^verbatim>\<open>"+Inf"\<close> and \<^verbatim>\<open>"-Inf"\<close> for the two
  infinities (the double quotes are part of the output), and for every finite pattern
  \<^verbatim>\<open>strconv.AppendFloat(nil, v, 'f', -1, bitSize)\<close> with \<open>bitSize\<close> 32 after 0xFA and 64
  after 0xFB.  The dispatcher writes exactly this text to the sink.
\<close>

theorem C8_floats:
  assumes "floatPatternsOK L"
  shows "decodeSimpleFloat L (0xFA # big_endian 4 (unat n) @ rest) = Inr (renderFloat32 L n, rest) \<and>
         decodeSimpleFloat L (0xFB # big_endian 8 (unat m) @ rest) = Inr (renderFloat64 L m, rest) \<and>
         cbor2JsonOneObject L bufferWrite (Suc f) (0xFA # big_endian 4 (unat n) @ rest) (b, lg) =
           Some (Inr rest, (b @ renderFloat32 L n, lg)) \<and>
         cbor2JsonOneObject L bufferWrite (Suc f) (0xFB # big_endian 8 (unat m) @ rest) (b, lg) =
           Some (Inr rest, (b @ renderFloat64 L m, lg))"
  using decodeSimpleFloat_32 [OF assms, of n rest] decodeSimpleFloat_64 [OF assms, of m rest]
    obj_float [of L "0xFA" "big_endian 4 (unat n) @ rest" "renderFloat32 L n" rest f b lg]
    obj_float [of L "0xFB" "big_endian 8 (unat m) @ rest" "renderFloat64 L m" rest f b lg]
  by simp

lemmas float_eval = floatPatternsOK_def bits32_def bits64_def exponent32_def fraction32_def
  exponent64_def fraction64_def stubLib_def

text \<open>
  The witness: a NaN that is none of the package's patterns, the negative infinity as a
  double, and the single 2.5, with a rendering that shows the precision asked for.
\<close>

theorem C8_floats_witness:
  "floatPatternsOK (stubLib\<lparr>appendFloat := \<lambda>v bitSize. Itoa (int bitSize)\<rparr>) \<and>
   decodeSimpleFloat (stubLib\<lparr>appendFloat := \<lambda>v bitSize. Itoa (int bitSize)\<rparr>)
     [0xFA, 0x7F, 0xC0, 0x00, 0x01, 0x00] = Inr ([0x22, 0x4E, 0x61, 0x4E, 0x22], [0x00]) \<and>
   decodeSimpleFloat (stubLib\<lparr>appendFloat := \<lambda>v bitSize. Itoa (int bitSize)\<rparr>)
     [0xFB, 0xFF, 0xF0, 0x00, 0x00, 0x00, 0x00, 0x00, 0x00, 0x00] =
     Inr ([0x22, 0x2D, 0x49, 0x6E, 0x66, 0x22], [0x00]) \<and>
   cbor2JsonOneObject (stubLib\<lparr>appendFloat := \<lambda>v bitSize. Itoa (int bitSize)\<rparr>) bufferWrite
     (Suc 0) [0xFA, 0x40, 0x20, 0x00, 0x00, 0x00] ([], []) = Some (Inr [0x00], ([0x33, 0x32], []))"
proof -
  let ?L = "stubLib\<lparr>appendFloat := \<lambda>v bitSize. Itoa (int bitSize)\<rparr>"
  have h: "floatPatternsOK ?L" by (simp add: float_eval)
  have e: "big_endian 4 (unat (0x7FC00001 :: 32 word)) = [0x7F, 0xC0, 0x00, 0x01]"
    "big_endian 8 (unat (0xFFF0000000000000 :: 64 word)) = [0xFF, 0xF0, 0x00, 0x00, 0x00, 0x00, 0x00, 0x00]"
    "big_endian 4 (unat (0x40200000 :: 32 word)) = [0x40, 0x20, 0x00, 0x00]"
    by (simp_all add: big_endian_4 big_endian_8)
  have r: "renderFloat32 ?L 0x7FC00001 = [0x22, 0x4E, 0x61, 0x4E, 0x22]"
    "renderFloat64 ?L 0xFFF0000000000000 = [0x22, 0x2D, 0x49, 0x6E, 0x66, 0x22]"
    "renderFloat32 ?L 0x40200000 = [0x33, 0x32]"
    by (simp_all add: renderFloat32_def renderFloat64_def exponent32_def fraction32_def
        exponent64_def fraction64_def str_def Itoa_def digits.simps)
  note a = C8_floats [OF h, of "0x7FC00001" "[0x00]" "0xFFF0000000000000" 0 "[]" "[]",
      unfolded e r]
  note b = C8_floats [OF h, of "0x40200000" "[0x00]" "0xFFF0000000000000" 0 "[]" "[]",
      unfolded e r]
  have a1: "decodeSimpleFloat ?L [0xFA, 0x7F, 0xC0, 0x00, 0x01, 0x00] =
      Inr ([0x22, 0x4E, 0x61, 0x4E, 0x22], [0x00])"
    using a [THEN conjunct1] by simp
  have a2: "decodeSimpleFloat ?L [0xFB, 0xFF, 0xF0, 0x00, 0x00, 0x00, 0x00, 0x00, 0x00, 0x00] =
     Inr ([0x22, 0x2D, 0x49, 0x6E, 0x66, 0x22], [0x00])"
    using a [THEN conjunct2, THEN conjunct1] by simp
  have a3: "cbor2JsonOneObject ?L bufferWrite (Suc 0)
     [0xFA, 0x40, 0x20, 0x00, 0x00, 0x00] ([], []) = Some (Inr [0x00], ([0x33, 0x32], []))"
    using b [THEN conjunct2, THEN conjunct2, THEN conjunct1] by simp
  show ?thesis using h a1 a2 a3 by blast
qed

section \<open>Truncated input\<close>

lemma decodeIntAdditionalType_cut:
  assumes "h AND 0x1F \<in> {24, 25, 26, 27}" "length field < fieldWidth h"
  shows "decodeIntAdditionalType field (h AND 0x1F) = Inl (Error (readMsg (fieldWidth h)))"
  using assms
  by (auto simp: decodeIntAdditionalType_def const_defs readNBytes_def maxAlloc_def
      fieldWidth_def readMsg_def)

lemma cut_fault:
  assumes "cutHead h" "length field < fieldWidth h"
  shows "cbor2JsonOneObject L bufferWrite (Suc (Suc f)) (h # field) (b, lg)
           = Some (Inl (Error (readMsg (fieldWidth h))),
                   (b @ (if h AND 0xE0 = 0x80 then [0x5B] else []), lg))"
proof -
  consider (head) "h AND 0x1F \<in> {24, 25, 26, 27}"
      "h AND 0xE0 \<in> {0x00, 0x20, 0x40, 0x60, 0x80, 0xA0}"
    | (tag) "h = 0xD9" | (f32) "h = 0xFA" | (f64) "h = 0xFB"
    using assms(1) unfolding cutHead_def by blast
  then show ?thesis
  proof cases
    case head
    note d = decodeIntAdditionalType_cut [OF head(1) assms(2)]
    have i: "h AND 0x1F \<noteq> 31" using head(1) by auto
    from head(2) d i show ?thesis
      by (elim insertE emptyE)
         (simp_all add: cbor2JsonOneObject.simps array2Json.simps map2Json.simps
           const_defs decodeInteger_def decodeString_def decodeUTF8String_def readByte_def
           dstWrite_def bufferWrite_def HandleErr_def)
  next
    case tag
    with assms(2) show ?thesis
      by (simp add: cbor2JsonOneObject.simps const_defs decodeTagData_def readByte_def
          decodeIntAdditionalType_def readNBytes_def maxAlloc_def fieldWidth_def readMsg_def)
  next
    case f32
    with assms(2) show ?thesis
      by (simp add: cbor2JsonOneObject.simps const_defs decodeSimpleFloat_def decodeFloat_def
          readByte_def readNBytes_def maxAlloc_def fieldWidth_def readMsg_def)
  next
    case f64
    with assms(2) show ?thesis
      by (simp add: cbor2JsonOneObject.simps const_defs decodeSimpleFloat_def decodeFloat_def
          readByte_def readNBytes_def maxAlloc_def fieldWidth_def readMsg_def)
  qed
qed

lemma arrayLoop_fault_definite:
  assumes "\<forall>x\<in>set xs. decodesTo L (encode x) (render x)" "faultsWith L ct p out"
  shows "\<exists>f0. \<forall>f\<ge>f0. \<forall>i len2 b lg. i + int (length xs) < len2 \<longrightarrow>
           arrayLoop L bufferWrite f i len2 False (concat (map encode xs) @ ct) (b, lg)
             = Some (Inl p, (b @ concat (map (\<lambda>x. render x @ [0x2C]) xs) @ out, lg))"
  using assms(1)
proof (induction xs)
  case Nil
  from assms(2) obtain ft where ft0: "\<forall>f\<ge>ft. \<forall>b lg.
      cbor2JsonOneObject L bufferWrite f ct (b, lg) = Some (Inl p, (b @ out, lg))"
    unfolding faultsWith_def by blast
  note ft = ft0 [rule_format]
  have "arrayLoop L bufferWrite f i len2 False ct (b, lg) = Some (Inl p, (b @ out, lg))"
    if "Suc ft \<le> f" "i < len2" for f i len2 b lg
  proof -
    from that obtain f' where f': "f = Suc f'" "ft \<le> f'" by (cases f) auto
    show ?thesis unfolding f'(1)
      by (subst arrayLoop.simps) (simp add: that(2) ft [OF f'(2)])
  qed
  then show ?case by (intro exI [of _ "Suc ft"]) simp
next
  case (Cons x xs)
  from Cons.prems have "decodesTo L (encode x) (render x)" by simp
  then obtain fx where fx0: "\<forall>f\<ge>fx. \<forall>rest b lg.
      cbor2JsonOneObject L bufferWrite f (encode x @ rest) (b, lg)
        = Some (Inr rest, (b @ render x, lg))"
    unfolding decodesTo_def by blast
  note fx = fx0 [rule_format]
  from Cons.prems have "\<forall>x\<in>set xs. decodesTo L (encode x) (render x)" by simp
  from Cons.IH [OF this]
  obtain fs where fs0: "\<forall>f\<ge>fs. \<forall>i len2 b lg. i + int (length xs) < len2 \<longrightarrow>
      arrayLoop L bufferWrite f i len2 False (concat (map encode xs) @ ct) (b, lg)
        = Some (Inl p, (b @ concat (map (\<lambda>x. render x @ [0x2C]) xs) @ out, lg))"
    by blast
  note fs = fs0 [rule_format]
  have "arrayLoop L bufferWrite f i len2 False (concat (map encode (x # xs)) @ ct) (b, lg)
          = Some (Inl p, (b @ concat (map (\<lambda>x. render x @ [0x2C]) (x # xs)) @ out, lg))"
    if f: "Suc (max fx fs) \<le> f" and l: "i + int (length (x # xs)) < len2" for f i len2 b lg
  proof -
    from f obtain f' where f': "f = Suc f'" "fx \<le> f'" "fs \<le> f'" by (cases f) auto
    from l have c: "i < len2" "i + 1 < len2" "(i + 1) + int (length xs) < len2"
      by auto
    from fs [OF f'(3) c(3), of "b @ render x @ [0x2C]" lg]
    show ?thesis
      unfolding f'(1)
      by (subst arrayLoop.simps) (simp add: c fx [OF f'(2)] dstWrite_def bufferWrite_def HandleErr_def)
  qed
  then show ?case by blast
qed

lemma arrayLoop_fault_indefinite:
  assumes "\<forall>x\<in>set xs. decodesTo L (encode x) (render x) \<and> encode x \<noteq> [] \<and>
             hd (encode x) \<noteq> breakByte"
    "faultsWith L ct p out" "ct \<noteq> []" "hd ct \<noteq> breakByte"
  shows "\<exists>f0. \<forall>f\<ge>f0. \<forall>i len2 b lg.
           arrayLoop L bufferWrite f i len2 True (concat (map encode xs) @ ct) (b, lg)
             = Some (Inl p, (b @ concat (map (\<lambda>x. render x @ [0x2C]) xs) @ out, lg))"
  using assms(1)
proof (induction xs)
  case Nil
  from assms(2) obtain ft where ft0: "\<forall>f\<ge>ft. \<forall>b lg.
      cbor2JsonOneObject L bufferWrite f ct (b, lg) = Some (Inl p, (b @ out, lg))"
    unfolding faultsWith_def by blast
  note ft = ft0 [rule_format]
  have "arrayLoop L bufferWrite f i len2 True ct (b, lg) = Some (Inl p, (b @ out, lg))"
    if "Suc ft \<le> f" for f i len2 b lg
  proof -
    from that obtain f' where f': "f = Suc f'" "ft \<le> f'" by (cases f) auto
    show ?thesis unfolding f'(1)
      using assms(3,4)
      by (subst arrayLoop.simps) (simp add: ft [OF f'(2)] breakByte_def)
  qed
  then show ?case by (intro exI [of _ "Suc ft"]) simp
next
  case (Cons x xs)
  from Cons.prems have "decodesTo L (encode x) (render x)" by simp
  then obtain fx where fx0: "\<forall>f\<ge>fx. \<forall>rest b lg.
      cbor2JsonOneObject L bufferWrite f (encode x @ rest) (b, lg)
        = Some (Inr rest, (b @ render x, lg))"
    unfolding decodesTo_def by blast
  note fx = fx0 [rule_format]
  from Cons.prems have hx: "encode x \<noteq> []" "hd (encode x) \<noteq> breakByte" by auto
  from Cons.prems have "\<forall>x\<in>set xs. decodesTo L (encode x) (render x) \<and> encode x \<noteq> [] \<and>
             hd (encode x) \<noteq> breakByte" by simp
  from Cons.IH [OF this]
  obtain fs where fs0: "\<forall>f\<ge>fs. \<forall>i len2 b lg.
      arrayLoop L bufferWrite f i len2 True (concat (map encode xs) @ ct) (b, lg)
        = Some (Inl p, (b @ concat (map (\<lambda>x. render x @ [0x2C]) xs) @ out, lg))"
    by blast
  note fs = fs0 [rule_format]
  have nx: "concat (map encode xs) @ ct \<noteq> [] \<and> hd (concat (map encode xs) @ ct) \<noteq> breakByte"
  proof (cases xs)
    case Nil
    with assms(3,4) show ?thesis by simp
  next
    case (Cons y ys)
    with Cons.prems have "encode y \<noteq> []" "hd (encode y) \<noteq> breakByte" by auto
    with Cons show ?thesis by simp
  qed
  then obtain q qs where q: "concat (map encode xs) @ ct = q # qs" "q \<noteq> breakByte"
    by (cases "concat (map encode xs) @ ct") auto
  have "arrayLoop L bufferWrite f i len2 True (concat (map encode (x # xs)) @ ct) (b, lg)
          = Some (Inl p, (b @ concat (map (\<lambda>x. render x @ [0x2C]) (x # xs)) @ out, lg))"
    if f: "Suc (max fx fs) \<le> f" for f i len2 b lg
  proof -
    from f obtain f' where f': "f = Suc f'" "fx \<le> f'" "fs \<le> f'" by (cases f) auto
    from hx have h: "encode x @ t \<noteq> []" "hd (encode x @ t) \<noteq> breakByte" for t by auto
    from fs [OF f'(3), of "i + 1" len2 "b @ render x @ [0x2C]" lg] q
    show ?thesis
      unfolding f'(1)
      by (subst arrayLoop.simps)
         (simp add: h [unfolded breakByte_def] fx [OF f'(2)] breakByte_def
           dstWrite_def bufferWrite_def HandleErr_def)
  qed
  then show ?case by blast
qed

lemma odd_mod2: "\<not> even (i::int) \<Longrightarrow> i mod 2 \<noteq> 0"
  by presburger

lemma mapLoop_fault_definite:
  assumes "\<forall>x\<in>set xs. decodesTo L (encode x) (render x)" "faultsWith L ct p out"
  shows "\<exists>f0. \<forall>f\<ge>f0. \<forall>i l k b lg. i + int (length xs) < l \<longrightarrow> (even i \<longleftrightarrow> k) \<longrightarrow>
           mapLoop L bufferWrite f i l False (concat (map encode xs) @ ct) (b, lg)
             = Some (Inl p, (b @ mapPartial k (map render xs) @ out, lg))"
  using assms(1)
proof (induction xs)
  case Nil
  from assms(2) obtain ft where ft0: "\<forall>f\<ge>ft. \<forall>b lg.
      cbor2JsonOneObject L bufferWrite f ct (b, lg) = Some (Inl p, (b @ out, lg))"
    unfolding faultsWith_def by blast
  note ft = ft0 [rule_format]
  have "mapLoop L bufferWrite f i l False ct (b, lg) = Some (Inl p, (b @ out, lg))"
    if "Suc ft \<le> f" "i < l" for f i l b lg
  proof -
    from that obtain f' where f': "f = Suc f'" "ft \<le> f'" by (cases f) auto
    show ?thesis unfolding f'(1)
      by (subst mapLoop.simps) (simp add: that(2) ft [OF f'(2)])
  qed
  then show ?case by (intro exI [of _ "Suc ft"]) simp
next
  case (Cons x xs)
  from Cons.prems have "decodesTo L (encode x) (render x)" by simp
  then obtain fx where fx0: "\<forall>f\<ge>fx. \<forall>rest b lg.
      cbor2JsonOneObject L bufferWrite f (encode x @ rest) (b, lg)
        = Some (Inr rest, (b @ render x, lg))"
    unfolding decodesTo_def by blast
  note fx = fx0 [rule_format]
  from Cons.prems have "\<forall>x\<in>set xs. decodesTo L (encode x) (render x)" by simp
  from Cons.IH [OF this]
  obtain fs where fs0: "\<forall>f\<ge>fs. \<forall>i l k b lg. i + int (length xs) < l \<longrightarrow> (even i \<longleftrightarrow> k) \<longrightarrow>
      mapLoop L bufferWrite f i l False (concat (map encode xs) @ ct) (b, lg)
        = Some (Inl p, (b @ mapPartial k (map render xs) @ out, lg))"
    by blast
  note fs = fs0 [rule_format]
  have "mapLoop L bufferWrite f i l False (concat (map encode (x # xs)) @ ct) (b, lg)
          = Some (Inl p, (b @ mapPartial k (map render (x # xs)) @ out, lg))"
    if f: "Suc (max fx fs) \<le> f" and l: "i + int (length (x # xs)) < l" and e: "even i \<longleftrightarrow> k"
    for f i l k b lg
  proof -
    from f obtain f' where f': "f = Suc f'" "fx \<le> f'" "fs \<le> f'" by (cases f) auto
    from l have c: "i < l" "i + 1 < l" "(i + 1) + int (length xs) < l"
      by auto
    from e have e': "even (i + 1) \<longleftrightarrow> \<not> k" by simp
    show ?thesis
    proof (cases k)
      case True
      with e have "i mod 2 = 0" by presburger
      with True fs [OF f'(3) c(3) e', of "b @ render x @ [0x3A]" lg]
      show ?thesis
        unfolding f'(1)
        by (subst mapLoop.simps) (simp add: c fx [OF f'(2)])
    next
      case False
      with e have "i mod 2 \<noteq> 0" by presburger
      with False fs [OF f'(3) c(3) e', of "b @ render x @ [0x2C]" lg]
      show ?thesis
        unfolding f'(1)
        by (subst mapLoop.simps) (simp add: c fx [OF f'(2)])
    qed
  qed
  then show ?case by blast
qed

lemma mapLoop_fault_indefinite:
  assumes "\<forall>x\<in>set xs. decodesTo L (encode x) (render x) \<and> encode x \<noteq> [] \<and>
             hd (encode x) \<noteq> breakByte"
    "faultsWith L ct p out" "ct \<noteq> []" "hd ct \<noteq> breakByte"
  shows "\<exists>f0. \<forall>f\<ge>f0. \<forall>i l k b lg. (even i \<longleftrightarrow> k) \<longrightarrow>
           mapLoop L bufferWrite f i l True (concat (map encode xs) @ ct) (b, lg)
             = Some (Inl p, (b @ mapPartial k (map render xs) @ out, lg))"
  using assms(1)
proof (induction xs)
  case Nil
  from assms(2) obtain ft where ft0: "\<forall>f\<ge>ft. \<forall>b lg.
      cbor2JsonOneObject L bufferWrite f ct (b, lg) = Some (Inl p, (b @ out, lg))"
    unfolding faultsWith_def by blast
  note ft = ft0 [rule_format]
  have "mapLoop L bufferWrite f i l True ct (b, lg) = Some (Inl p, (b @ out, lg))"
    if "Suc ft \<le> f" for f i l b lg
  proof -
    from that obtain f' where f': "f = Suc f'" "ft \<le> f'" by (cases f) auto
    show ?thesis unfolding f'(1)
      using assms(3,4)
      by (subst mapLoop.simps) (simp add: ft [OF f'(2)] breakByte_def)
  qed
  then show ?case by (intro exI [of _ "Suc ft"]) simp
next
  case (Cons x xs)
  from Cons.prems have "decodesTo L (encode x) (render x)" by simp
  then obtain fx where fx0: "\<forall>f\<ge>fx. \<forall>rest b lg.
      cbor2JsonOneObject L bufferWrite f (encode x @ rest) (b, lg)
        = Some (Inr rest, (b @ render x, lg))"
    unfolding decodesTo_def by blast
  note fx = fx0 [rule_format]
  from Cons.prems have hx: "encode x \<noteq> []" "hd (encode x) \<noteq> breakByte" by auto
  from Cons.prems have "\<forall>x\<in>set xs. decodesTo L (encode x) (render x) \<and> encode x \<noteq> [] \<and>
             hd (encode x) \<noteq> breakByte" by simp
  from Cons.IH [OF this]
  obtain fs where fs0: "\<forall>f\<ge>fs. \<forall>i l k b lg. (even i \<longleftrightarrow> k) \<longrightarrow>
      mapLoop L bufferWrite f i l True (concat (map encode xs) @ ct) (b, lg)
        = Some (Inl p, (b @ mapPartial k (map render xs) @ out, lg))"
    by blast
  note fs = fs0 [rule_format]
  have nx: "concat (map encode xs) @ ct \<noteq> [] \<and> hd (concat (map encode xs) @ ct) \<noteq> breakByte"
  proof (cases xs)
    case Nil
    with assms(3,4) show ?thesis by simp
  next
    case (Cons y ys)
    with Cons.prems have "encode y \<noteq> []" "hd (encode y) \<noteq> breakByte" by auto
    with Cons show ?thesis by simp
  qed
  then obtain q qs where q: "concat (map encode xs) @ ct = q # qs" "q \<noteq> breakByte"
    by (cases "concat (map encode xs) @ ct") auto
  have "mapLoop L bufferWrite f i l True (concat (map encode (x # xs)) @ ct) (b, lg)
          = Some (Inl p, (b @ mapPartial k (map render (x # xs)) @ out, lg))"
    if f: "Suc (max fx fs) \<le> f" and e: "even i \<longleftrightarrow> k" for f i l k b lg
  proof -
    from f obtain f' where f': "f = Suc f'" "fx \<le> f'" "fs \<le> f'" by (cases f) auto
    from hx have h: "encode x @ t \<noteq> []" "hd (encode x @ t) \<noteq> breakByte" for t by auto
    from e have e': "even (i + 1) \<longleftrightarrow> \<not> k" by simp
    show ?thesis
    proof (cases k)
      case True
      with e have "i mod 2 = 0" by presburger
      with True fs [OF f'(3) e', of l "b @ render x @ [0x3A]" lg] q
      show ?thesis
        unfolding f'(1)
        by (subst mapLoop.simps)
           (simp add: h [unfolded breakByte_def] fx [OF f'(2)] breakByte_def)
    next
      case False
      with e have "i mod 2 \<noteq> 0" by presburger
      with False fs [OF f'(3) e', of l "b @ render x @ [0x2C]" lg] q
      show ?thesis
        unfolding f'(1)
        by (subst mapLoop.simps)
           (simp add: h [unfolded breakByte_def] fx [OF f'(2)] breakByte_def)
    qed
  qed
  then show ?case by blast
qed

lemma cutHead_not_break: "cutHead h \<Longrightarrow> h \<noteq> breakByte"
  by (auto simp: cutHead_def breakByte_def const_defs)

lemma items_decode:
  assumes "list_all wf xs"
  shows "\<forall>x\<in>set xs. decodesTo L (encode x) (render x) \<and> encode x \<noteq> [] \<and>
           hd (encode x) \<noteq> breakByte"
  using assms encode_hd [where rest="[]"] by (auto simp: list_all_iff intro: decodesTo_item)

lemma faultsWith_array:
  assumes "isArrayHead src"
    "\<exists>f0. \<forall>f\<ge>f0. \<forall>b lg. array2Json L bufferWrite f src (b, lg) = Some (Inl p, (b @ out, lg))"
  shows "faultsWith L src p out"
proof -
  from assms(2) obtain f0 where f0: "\<forall>f\<ge>f0. \<forall>b lg.
      array2Json L bufferWrite f src (b, lg) = Some (Inl p, (b @ out, lg))" by blast
  have "cbor2JsonOneObject L bufferWrite f src (b, lg) = Some (Inl p, (b @ out, lg))"
    if "Suc f0 \<le> f" for f b lg
  proof -
    from that obtain f' where f': "f = Suc f'" "f0 \<le> f'" by (cases f) auto
    show ?thesis unfolding f'(1) obj_array [OF assms(1)] using f0 f'(2) by simp
  qed
  then show ?thesis unfolding faultsWith_def by blast
qed

lemma faultsWith_map:
  assumes "isMapHead src"
    "\<exists>f0. \<forall>f\<ge>f0. \<forall>b lg. map2Json L bufferWrite f src (b, lg) = Some (Inl p, (b @ out, lg))"
  shows "faultsWith L src p out"
proof -
  from assms(2) obtain f0 where f0: "\<forall>f\<ge>f0. \<forall>b lg.
      map2Json L bufferWrite f src (b, lg) = Some (Inl p, (b @ out, lg))" by blast
  have "cbor2JsonOneObject L bufferWrite f src (b, lg) = Some (Inl p, (b @ out, lg))"
    if "Suc f0 \<le> f" for f b lg
  proof -
    from that obtain f' where f': "f = Suc f'" "f0 \<le> f'" by (cases f) auto
    show ?thesis unfolding f'(1) obj_map [OF assms(1)] using f0 f'(2) by simp
  qed
  then show ?thesis unfolding faultsWith_def by blast
qed

lemma trunc_faults:
  "twf t \<Longrightarrow> faultsWith L (tencode t) (Error (tmsg t)) (tpartial t) \<and>
     tencode t \<noteq> [] \<and> hd (tencode t) \<noteq> breakByte"
proof (induction t)
  case (Cut h field)
  then have c: "cutHead h" "length field < fieldWidth h" by simp_all
  have "cbor2JsonOneObject L bufferWrite f (h # field) (b, lg)
          = Some (Inl (Error (readMsg (fieldWidth h))),
                  (b @ (if h AND 0xE0 = 0x80 then [0x5B] else []), lg))"
    if "2 \<le> f" for f b lg
  proof -
    from that obtain f' where "f = Suc (Suc f')" by (cases f; cases "f - 1") auto
    then show ?thesis using cut_fault [OF c] by simp
  qed
  then have "faultsWith L (tencode (Cut h field)) (Error (tmsg (Cut h field)))
      (tpartial (Cut h field))"
    unfolding faultsWith_def by (intro exI [of _ 2]) simp
  with cutHead_not_break [OF c(1)] show ?case by simp
next
  case (InArr u n xs t)
  then have ih: "faultsWith L (tencode t) (Error (tmsg t)) (tpartial t)"
    "tencode t \<noteq> []" "hd (tencode t) \<noteq> breakByte"
    and w: "list_all wf xs" and un: "u \<or> (length xs < n \<and> n < 2 ^ 63)"
    by simp_all
  note it = items_decode [OF w, of L]
  show ?case
  proof (cases u)
    case True
    from arrayLoop_fault_indefinite [OF it ih]
    obtain f0 where f0: "\<forall>f\<ge>f0. \<forall>i len2 b lg.
        arrayLoop L bufferWrite f i len2 True (concat (map encode xs) @ tencode t) (b, lg)
          = Some (Inl (Error (tmsg t)),
                  (b @ concat (map (\<lambda>x. render x @ [0x2C]) xs) @ tpartial t, lg))"
      by blast
    have "array2Json L bufferWrite f (tencode (InArr u n xs t)) (b, lg)
            = Some (Inl (Error (tmsg (InArr u n xs t))), (b @ tpartial (InArr u n xs t), lg))"
      if "Suc f0 \<le> f" for f b lg
    proof -
      from that obtain f' where f': "f = Suc f'" "f0 \<le> f'" by (cases f) auto
      show ?thesis unfolding f'(1) using True f0 f'(2)
        by (simp add: array2Json_indefinite)
    qed
    then have "faultsWith L (tencode (InArr u n xs t)) (Error (tmsg (InArr u n xs t)))
        (tpartial (InArr u n xs t))"
      by (intro faultsWith_array) (auto simp: True isArrayHead_def const_defs)
    with True show ?thesis by (simp add: breakByte_def const_defs)
  next
    case False
    with un have n: "length xs < n" "n < 2 ^ 63" by simp_all
    then have fi: "fits (minWidth n) n" by (intro fits_minWidth) simp
    from arrayLoop_fault_definite [OF _ ih(1), of xs] it
    obtain f0 where f0: "\<forall>f\<ge>f0. \<forall>i len2 b lg. i + int (length xs) < len2 \<longrightarrow>
        arrayLoop L bufferWrite f i len2 False (concat (map encode xs) @ tencode t) (b, lg)
          = Some (Inl (Error (tmsg t)),
                  (b @ concat (map (\<lambda>x. render x @ [0x2C]) xs) @ tpartial t, lg))"
      by blast
    have "array2Json L bufferWrite f (tencode (InArr u n xs t)) (b, lg)
            = Some (Inl (Error (tmsg (InArr u n xs t))), (b @ tpartial (InArr u n xs t), lg))"
      if "Suc f0 \<le> f" for f b lg
    proof -
      from that obtain f' where f': "f = Suc f'" "f0 \<le> f'" by (cases f) auto
      show ?thesis unfolding f'(1) using False f0 f'(2) n
        by (simp add: array2Json_definite [OF fi n(2)])
    qed
    moreover from encodeHead_hd [OF isMajor_consts(5) fi]
    have hd: "isArrayHead (tencode (InArr u n xs t))"
      "tencode (InArr u n xs t) \<noteq> []" "hd (tencode (InArr u n xs t)) \<noteq> breakByte"
      using False by (auto simp: isArrayHead_def breakByte_def const_defs)
    ultimately have "faultsWith L (tencode (InArr u n xs t)) (Error (tmsg (InArr u n xs t)))
        (tpartial (InArr u n xs t))"
      by (intro faultsWith_array) blast+
    with hd show ?thesis by simp
  qed
next
  case (InMap u n xs t)
  then have ih: "faultsWith L (tencode t) (Error (tmsg t)) (tpartial t)"
    "tencode t \<noteq> []" "hd (tencode t) \<noteq> breakByte"
    and w: "list_all wf xs" and un: "u \<or> (length xs < n \<and> n < 2 ^ 63)"
    by simp_all
  note it = items_decode [OF w, of L]
  show ?case
  proof (cases u)
    case True
    from mapLoop_fault_indefinite [OF it ih]
    obtain f0 where f0: "\<forall>f\<ge>f0. \<forall>i l k b lg. (even i \<longleftrightarrow> k) \<longrightarrow>
        mapLoop L bufferWrite f i l True (concat (map encode xs) @ tencode t) (b, lg)
          = Some (Inl (Error (tmsg t)),
                  (b @ mapPartial k (map render xs) @ tpartial t, lg))"
      by blast
    have "map2Json L bufferWrite f (tencode (InMap u n xs t)) (b, lg)
            = Some (Inl (Error (tmsg (InMap u n xs t))), (b @ tpartial (InMap u n xs t), lg))"
      if "Suc f0 \<le> f" for f b lg
    proof -
      from that obtain f' where f': "f = Suc f'" "f0 \<le> f'" by (cases f) auto
      show ?thesis unfolding f'(1) using True f0 [rule_format, OF f'(2), of 0 True] 
        by (simp add: map2Json_indefinite)
    qed
    then have "faultsWith L (tencode (InMap u n xs t)) (Error (tmsg (InMap u n xs t)))
        (tpartial (InMap u n xs t))"
      by (intro faultsWith_map) (auto simp: True isMapHead_def const_defs)
    with True show ?thesis by (simp add: breakByte_def const_defs)
  next
    case False
    with un have n: "length xs < n" "n < 2 ^ 63" by simp_all
    then have fi: "fits (minWidth n) n" by (intro fits_minWidth) simp
    from mapLoop_fault_definite [OF _ ih(1), of xs] it
    obtain f0 where f0: "\<forall>f\<ge>f0. \<forall>i l k b lg. i + int (length xs) < l \<longrightarrow> (even i \<longleftrightarrow> k) \<longrightarrow>
        mapLoop L bufferWrite f i l False (concat (map encode xs) @ tencode t) (b, lg)
          = Some (Inl (Error (tmsg t)),
                  (b @ mapPartial k (map render xs) @ tpartial t, lg))"
      by blast
    have "map2Json L bufferWrite f (tencode (InMap u n xs t)) (b, lg)
            = Some (Inl (Error (tmsg (InMap u n xs t))), (b @ tpartial (InMap u n xs t), lg))"
      if "Suc f0 \<le> f" for f b lg
    proof -
      from that obtain f' where f': "f = Suc f'" "f0 \<le> f'" by (cases f) auto
      show ?thesis unfolding f'(1) using False f0 [rule_format, OF f'(2), of 0 "int n" True] n
        by (simp add: map2Json_definite [OF fi n(2)])
    qed
    moreover from encodeHead_hd [OF isMajor_consts(6) fi]
    have hd: "isMapHead (tencode (InMap u n xs t))"
      "tencode (InMap u n xs t) \<noteq> []" "hd (tencode (InMap u n xs t)) \<noteq> breakByte"
      using False by (auto simp: isMapHead_def breakByte_def const_defs)
    ultimately have "faultsWith L (tencode (InMap u n xs t)) (Error (tmsg (InMap u n xs t)))
        (tpartial (InMap u n xs t))"
      by (intro faultsWith_map) blast+
    with hd show ?thesis by simp
  qed
qed

lemma manyObjLoop_trunc:
  assumes "list_all wf ts" "twf t"
  shows "\<exists>f0. \<forall>f\<ge>f0. \<forall>b lg.
           manyObjLoop L bufferWrite f (concat (map encode ts) @ tencode t) (b, lg)
             = Some (Inl (Error (tmsg t)),
                     (b @ concat (map (\<lambda>x. render x @ [0x0A]) ts) @ tpartial t, lg))"
  using assms(1)
proof (induction ts)
  case Nil
  from trunc_faults [OF assms(2), of L]
  obtain ft where ft: "\<forall>f\<ge>ft. \<forall>b lg.
      cbor2JsonOneObject L bufferWrite f (tencode t) (b, lg)
        = Some (Inl (Error (tmsg t)), (b @ tpartial t, lg))"
    and ne: "tencode t \<noteq> []"
    unfolding faultsWith_def by blast
  have "manyObjLoop L bufferWrite f (tencode t) (b, lg)
          = Some (Inl (Error (tmsg t)), (b @ tpartial t, lg))"
    if "Suc ft \<le> f" for f b lg
  proof -
    from that obtain f' where f': "f = Suc f'" "ft \<le> f'" by (cases f) auto
    show ?thesis unfolding f'(1) using ft f'(2) ne
      by (simp add: manyObjLoop.simps moreBytesToRead_def)
  qed
  then show ?case by (intro exI [of _ "Suc ft"]) simp
next
  case (Cons x ts)
  then have wx: "wf x" and wts: "list_all wf ts" by simp_all
  from decodesTo_item [OF wx, of L]
  obtain fx where fx: "\<forall>f\<ge>fx. \<forall>rest b lg.
      cbor2JsonOneObject L bufferWrite f (encode x @ rest) (b, lg)
        = Some (Inr rest, (b @ render x, lg))"
    unfolding decodesTo_def by blast
  from encode_hd [OF wx, of "[]"] have ne: "encode x \<noteq> []" by simp
  from Cons.IH [OF wts]
  obtain fs where fs: "\<forall>f\<ge>fs. \<forall>b lg.
      manyObjLoop L bufferWrite f (concat (map encode ts) @ tencode t) (b, lg)
        = Some (Inl (Error (tmsg t)),
                (b @ concat (map (\<lambda>x. render x @ [0x0A]) ts) @ tpartial t, lg))"
    by blast
  have "manyObjLoop L bufferWrite f (concat (map encode (x # ts)) @ tencode t) (b, lg)
          = Some (Inl (Error (tmsg t)),
                  (b @ concat (map (\<lambda>x. render x @ [0x0A]) (x # ts)) @ tpartial t, lg))"
    if "Suc (max fx fs) \<le> f" for f b lg
  proof -
    from that obtain f' where f': "f = Suc f'" "fx \<le> f'" "fs \<le> f'" by (cases f) auto
    show ?thesis unfolding f'(1)
      using fx [rule_format, OF f'(2)] fs [rule_format, OF f'(3)] ne
      by (simp add: manyObjLoop.simps moreBytesToRead_def)
  qed
  then show ?case by blast
qed

lemma ManyObjCBOR2JSON_trunc:
  assumes "list_all wf ts" "twf t"
  shows "ManyObjCBOR2JSON L bufferWrite (concat (map encode ts) @ tencode t) (b, lg)
           = Some (Inr (Some (tmsg t)),
                   (b @ concat (map (\<lambda>x. render x @ [0x0A]) ts) @ tpartial t, lg))"
proof -
  let ?src = "concat (map encode ts) @ tencode t"
  from manyObjLoop_trunc [OF assms, of L]
  obtain f0 where f0: "\<forall>f\<ge>f0. \<forall>b lg.
      manyObjLoop L bufferWrite f ?src (b, lg)
        = Some (Inl (Error (tmsg t)),
                (b @ concat (map (\<lambda>x. render x @ [0x0A]) ts) @ tpartial t, lg))"
    by blast
  let ?F = "max f0 (fuel ?src)"
  have "manyObjLoop L bufferWrite (fuel ?src) ?src (b, lg)
          = manyObjLoop L bufferWrite ?F ?src (b, lg)"
    by (rule manyObjLoop_fuel) (simp_all add: fuel_def)
  also have "\<dots> = Some (Inl (Error (tmsg t)),
                (b @ concat (map (\<lambda>x. render x @ [0x0A]) ts) @ tpartial t, lg))"
    using f0 by simp
  finally show ?thesis by (simp add: ManyObjCBOR2JSON_def)
qed

lemma cbor2JsonOneObject_trunc:
  assumes "twf t"
  shows "cbor2JsonOneObject L bufferWrite (fuel (tencode t)) (tencode t) (b, lg)
           = Some (Inl (Error (tmsg t)), (b @ tpartial t, lg))"
proof -
  from trunc_faults [OF assms, of L]
  obtain f0 where f0: "\<forall>f\<ge>f0. \<forall>b lg.
      cbor2JsonOneObject L bufferWrite f (tencode t) (b, lg)
        = Some (Inl (Error (tmsg t)), (b @ tpartial t, lg))"
    unfolding faultsWith_def by blast
  let ?F = "max f0 (fuel (tencode t))"
  have "cbor2JsonOneObject L bufferWrite (fuel (tencode t)) (tencode t) (b, lg)
          = cbor2JsonOneObject L bufferWrite ?F (tencode t) (b, lg)"
    by (rule cbor2JsonOneObject_fuel) (simp_all add: fuel_def)
  also have "\<dots> = Some (Inl (Error (tmsg t)), (b @ tpartial t, lg))"
    using f0 by simp
  finally show ?thesis .
qed

lemma entry_points_trunc:
  assumes "list_all wf ts" "twf t" "hd (concat (map encode ts) @ tencode t) > 0x7F"
  shows "DecodeIfBinaryToString L (concat (map encode ts) @ tencode t)
           = Some (Inr (concat (map (\<lambda>x. render x @ [0x0A]) ts) @ tpartial t),
                   [(tmsg t, ''Can't convert many objects from CBOR to JSON'')])"
    and "DecodeIfBinaryToBytes L (concat (map encode ts) @ tencode t)
           = Some (Inr (concat (map (\<lambda>x. render x @ [0x0A]) ts) @ tpartial t),
                   [(tmsg t, ''Can't convert many objects from CBOR to JSON'')])"
    and "DecodeObjectToStr L (concat (map encode ts) @ tencode t)
           = (if ts = [] then Some (Inl (Error (tmsg t)), [])
              else Some (Inr (render (hd ts)), []))"
proof -
  let ?src = "concat (map encode ts) @ tencode t"
  from trunc_faults [OF assms(2), of L] have "tencode t \<noteq> []" by simp
  with assms(3) have bf: "binaryFmt ?src" by (simp add: binaryFmt_def)
  note m = ManyObjCBOR2JSON_trunc [OF assms(1,2), of L "[]" "[]"]
  from bf m show "DecodeIfBinaryToString L ?src
           = Some (Inr (concat (map (\<lambda>x. render x @ [0x0A]) ts) @ tpartial t),
                   [(tmsg t, ''Can't convert many objects from CBOR to JSON'')])"
    by (simp add: DecodeIfBinaryToString_def HandleErr_def)
  from bf m show "DecodeIfBinaryToBytes L ?src
           = Some (Inr (concat (map (\<lambda>x. render x @ [0x0A]) ts) @ tpartial t),
                   [(tmsg t, ''Can't convert many objects from CBOR to JSON'')])"
    by (simp add: DecodeIfBinaryToBytes_def HandleErr_def)
  show "DecodeObjectToStr L ?src
           = (if ts = [] then Some (Inl (Error (tmsg t)), [])
              else Some (Inr (render (hd ts)), []))"
  proof (cases ts)
    case Nil
    with bf cbor2JsonOneObject_trunc [OF assms(2), of L "[]" "[]"] show ?thesis
      by (simp add: DecodeObjectToStr_def)
  next
    case (Cons x xs)
    with assms(1) have "wf x" by simp
    from item_decodes [OF this, of L "concat (map encode xs) @ tencode t" "[]" "[]"] bf Cons
    show ?thesis
      by (simp add: DecodeObjectToStr_def)
  qed
qed

lemmas trunc_eval = cutHead_def fieldWidth_def readMsg_def encode_eval

text \<open>
  Claim C2, as stated, has each of the three entry points yield an error, and no panic leave
  the call, on every input of first byte above 0x7F that is cut in a multi-byte field.  On
  the two bytes 0x99 0x01 (an array head with a 2-byte count, one byte of it there)
  \<^verbatim>\<open>DecodeObjectToStr\<close>, which has no \<^verbatim>\<open>recover\<close>, lets the panic of \<^verbatim>\<open>readNBytes\<close> leave the
  call; \<^verbatim>\<open>DecodeIfBinaryToString\<close> and \<^verbatim>\<open>DecodeIfBinaryToBytes\<close> return the text \<^verbatim>\<open>[\<close>
  written so far, as if nothing had failed, and hand the error to the logger only.
\<close>

theorem C2_counterexample:
  "DecodeObjectToStr stubLib [0x99, 0x01]
     = Some (Inl (Error (str ''tried to Read 2 Bytes.. But hit end of file'')), []) \<and>
   DecodeIfBinaryToString stubLib [0x99, 0x01]
     = Some (Inr [0x5B], [(str ''tried to Read 2 Bytes.. But hit end of file'',
                           ''Can't convert many objects from CBOR to JSON'')]) \<and>
   DecodeIfBinaryToBytes stubLib [0x99, 0x01]
     = Some (Inr [0x5B], [(str ''tried to Read 2 Bytes.. But hit end of file'',
                           ''Can't convert many objects from CBOR to JSON'')])"
proof -
  have h: "list_all wf []" "twf (Cut 0x99 [0x01])"
    "hd (concat (map encode []) @ tencode (Cut 0x99 [0x01])) > 0x7F"
    by (simp_all add: trunc_eval)
  have m: "tmsg (Cut 0x99 [0x01]) = str ''tried to Read 2 Bytes.. But hit end of file''"
    by (simp add: trunc_eval)
  from entry_points_trunc [OF h, of stubLib] show ?thesis
    unfolding m by simp
qed

text \<open>
  Claim C2, amended.  Let the input be complete top-level items \<open>ts\<close> (possibly none)
  followed by an item \<open>t\<close> that is cut in a length or value field, with a first byte above
  0x7F.  Every entry point terminates, and no runtime error is raised.
  \<^verbatim>\<open>ManyObjCBOR2JSON\<close> returns the error \<^verbatim>\<open>tried to Read n Bytes.. But hit end of file\<close> (with
  \<open>n\<close> the width of the field), the sink holding the text of each complete item with its
  newline and what was written of \<open>t\<close>.  \<^verbatim>\<open>DecodeIfBinaryToString\<close> and
  \<^verbatim>\<open>DecodeIfBinaryToBytes\<close> return that text and no error: the error goes to the logger.
  \<^verbatim>\<open>DecodeObjectToStr\<close> decodes one item only: if the cut item is the first, the panic with
  that error leaves the call; otherwise it returns the text of the first item and does not
  look at the rest.
\<close>

theorem C2_truncated:
  assumes "list_all wf ts" "twf t" "hd (concat (map encode ts) @ tencode t) > 0x7F"
  shows "ManyObjCBOR2JSON L bufferWrite (concat (map encode ts) @ tencode t) (b, lg)
           = Some (Inr (Some (tmsg t)),
                   (b @ concat (map (\<lambda>x. render x @ [0x0A]) ts) @ tpartial t, lg)) \<and>
         DecodeIfBinaryToString L (concat (map encode ts) @ tencode t)
           = Some (Inr (concat (map (\<lambda>x. render x @ [0x0A]) ts) @ tpartial t),
                   [(tmsg t, ''Can't convert many objects from CBOR to JSON'')]) \<and>
         DecodeIfBinaryToBytes L (concat (map encode ts) @ tencode t)
           = Some (Inr (concat (map (\<lambda>x. render x @ [0x0A]) ts) @ tpartial t),
                   [(tmsg t, ''Can't convert many objects from CBOR to JSON'')]) \<and>
         DecodeObjectToStr L (concat (map encode ts) @ tencode t)
           = (if ts = [] then Some (Inl (Error (tmsg t)), [])
              else Some (Inr (render (hd ts)), []))"
  using ManyObjCBOR2JSON_trunc [OF assms(1,2)] entry_points_trunc [OF assms]
  by simp

text \<open>
  The witness: the array \<^verbatim>\<open>[1]\<close>, then a map of two items with the key 5 and a value whose
  2-byte field has one byte.
\<close>

theorem C2_truncated_witness:
  "list_all wf [Arr False [Num 1]] \<and> twf (InMap False 2 [Num 5] (Cut 0x19 [0x01])) \<and>
   concat (map encode [Arr False [Num 1]]) @ tencode (InMap False 2 [Num 5] (Cut 0x19 [0x01]))
     = [0x81, 0x01, 0xA2, 0x05, 0x19, 0x01] \<and>
   DecodeIfBinaryToString stubLib [0x81, 0x01, 0xA2, 0x05, 0x19, 0x01]
     = Some (Inr (str ''[1]'' @ [0x0A] @ str ''{5:''),
             [(str ''tried to Read 2 Bytes.. But hit end of file'',
               ''Can't convert many objects from CBOR to JSON'')]) \<and>
   DecodeObjectToStr stubLib [0x81, 0x01, 0xA2, 0x05, 0x19, 0x01] = Some (Inr (str ''[1]''), [])"
proof -
  have e: "concat (map encode [Arr False [Num 1]]) @
      tencode (InMap False 2 [Num 5] (Cut 0x19 [0x01])) = [0x81, 0x01, 0xA2, 0x05, 0x19, 0x01]"
    by (simp add: trunc_eval)
  have h: "list_all wf [Arr False [Num 1]]" "twf (InMap False 2 [Num 5] (Cut 0x19 [0x01]))"
    "hd (concat (map encode [Arr False [Num 1]]) @
         tencode (InMap False 2 [Num 5] (Cut 0x19 [0x01]))) > 0x7F"
    unfolding e by (simp_all add: trunc_eval)
  have m: "tmsg (InMap False 2 [Num 5] (Cut 0x19 [0x01]))
             = str ''tried to Read 2 Bytes.. But hit end of file''"
    "concat (map (\<lambda>x. render x @ [0x0A]) [Arr False [Num 1]]) @
       tpartial (InMap False 2 [Num 5] (Cut 0x19 [0x01])) = str ''[1]'' @ [0x0A] @ str ''{5:''"
    "render (hd [Arr False [Num 1]]) = str ''[1]''"
    by (simp_all add: trunc_eval)
  from C2_truncated [OF h, of stubLib "[]" "[]"] show ?thesis
    unfolding e m using h(1,2) e by simp
qed

section \<open>Errors of the sink\<close>

lemma obj_scalar_two:
  assumes "\<not> isArrayHead src" "\<not> isMapHead src"
  shows "(\<exists>p. cbor2JsonOneObject L wr (Suc f) src st = Some (Inl p, st) \<and>
              cbor2JsonOneObject L wr' (Suc f) src st' = Some (Inl p, st')) \<or>
         (\<exists>s rest. cbor2JsonOneObject L wr (Suc f) src st
                      = Some (Inr rest, dstWrite wr s ''Can't write'' st) \<and>
                    cbor2JsonOneObject L wr' (Suc f) src st'
                      = Some (Inr rest, dstWrite wr' s ''Can't write'' st'))"
proof (cases src)
  case Nil
  then show ?thesis by (simp add: cbor2JsonOneObject.simps)
next
  case (Cons pb t)
  from major_cases [of pb]
  consider "pb AND 0xE0 = 0x00" | "pb AND 0xE0 = 0x20" | "pb AND 0xE0 = 0x40"
    | "pb AND 0xE0 = 0x60" | "pb AND 0xE0 = 0x80" | "pb AND 0xE0 = 0xA0"
    | "pb AND 0xE0 = 0xC0" | "pb AND 0xE0 = 0xE0"
    by auto
  then show ?thesis
  proof cases
    case 1
    with Cons show ?thesis
      by (cases "decodeInteger (pb # t)") (auto simp: cbor2JsonOneObject.simps const_defs)
  next
    case 2
    with Cons show ?thesis
      by (cases "decodeInteger (pb # t)") (auto simp: cbor2JsonOneObject.simps const_defs)
  next
    case 3
    with Cons show ?thesis
      by (cases "decodeString (pb # t) False") (auto simp: cbor2JsonOneObject.simps const_defs)
  next
    case 4
    with Cons show ?thesis
      by (cases "decodeUTF8String (pb # t)") (auto simp: cbor2JsonOneObject.simps const_defs)
  next
    case 5
    with Cons assms(1) show ?thesis by (simp add: isArrayHead_def const_defs)
  next
    case 6
    with Cons assms(2) show ?thesis by (simp add: isMapHead_def const_defs)
  next
    case 7
    with Cons show ?thesis
      by (cases "decodeTagData L (pb # t)") (auto simp: cbor2JsonOneObject.simps const_defs)
  next
    case 8
    with Cons show ?thesis
      by (cases "decodeSimpleFloat L (pb # t)") (auto simp: cbor2JsonOneObject.simps const_defs)
  qed
qed

lemma obj_sim_step:
  assumes W: "\<And>p msg s s'. R s s' \<Longrightarrow> R (dstWrite wr p msg s) (dstWrite wr' p msg s')"
    and a2j: "\<And>src st st'. R st st' \<Longrightarrow>
        rel_option (rel_prod (=) R) (array2Json L wr f src st) (array2Json L wr' f src st')"
    and m2j: "\<And>src st st'. R st st' \<Longrightarrow>
        rel_option (rel_prod (=) R) (map2Json L wr f src st) (map2Json L wr' f src st')"
    and R: "R st st'"
  shows "rel_option (rel_prod (=) R) (cbor2JsonOneObject L wr (Suc f) src st)
           (cbor2JsonOneObject L wr' (Suc f) src st')"
proof -
  consider "isArrayHead src" | "isMapHead src" | "\<not> isArrayHead src" "\<not> isMapHead src"
    by blast
  then show ?thesis
  proof cases
    case 1
    then show ?thesis using a2j [OF R] by (simp add: obj_array)
  next
    case 2
    then show ?thesis using m2j [OF R] by (simp add: obj_map)
  next
    case 3
    from obj_scalar_two [OF 3, of L wr f st wr' st'] R W [OF R] show ?thesis
      by auto
  qed
qed

lemma a2j_sim_step:
  assumes W: "\<And>p msg s s'. R s s' \<Longrightarrow> R (dstWrite wr p msg s) (dstWrite wr' p msg s')"
    and al: "\<And>i len2 u src st st'. R st st' \<Longrightarrow>
        rel_option (rel_prod (=) R) (arrayLoop L wr f i len2 u src st)
          (arrayLoop L wr' f i len2 u src st')"
    and R: "R st st'"
  shows "rel_option (rel_prod (=) R) (array2Json L wr (Suc f) src st)
           (array2Json L wr' (Suc f) src st')"
proof -
  note R1 = W [OF R, of "[0x5B]" "''Failed to write start of array''"]
  show ?thesis
  proof (cases "readByte src")
    case (Inl p)
    with R1 show ?thesis by (simp add: array2Json.simps)
  next
    case (Inr x)
    obtain pb src1 where x: "x = (pb, src1)" by (cases x)
    show ?thesis
    proof (cases "decodeIntAdditionalType src1 (pb AND maskOutMajorType)")
      case (Inl p)
      with Inr x R1 al [OF R1] show ?thesis by (simp add: array2Json.simps Let_def)
    next
      case (Inr y)
      obtain len src2 where "y = (len, src2)" by (cases y)
      with Inr \<open>readByte src = Inr x\<close> x R1 al [OF R1] show ?thesis
        by (simp add: array2Json.simps Let_def)
    qed
  qed
qed

lemma m2j_sim_step:
  assumes W: "\<And>p msg s s'. R s s' \<Longrightarrow> R (dstWrite wr p msg s) (dstWrite wr' p msg s')"
    and ml: "\<And>i len2 u src st st'. R st st' \<Longrightarrow>
        rel_option (rel_prod (=) R) (mapLoop L wr f i len2 u src st)
          (mapLoop L wr' f i len2 u src st')"
    and R: "R st st'"
  shows "rel_option (rel_prod (=) R) (map2Json L wr (Suc f) src st)
           (map2Json L wr' (Suc f) src st')"
proof -
  note R1 = W [OF R, of "[0x7B]" "''Can't write''"]
  show ?thesis
  proof (cases "readByte src")
    case (Inl p)
    with R show ?thesis by (simp add: map2Json.simps)
  next
    case (Inr x)
    obtain pb src1 where x: "x = (pb, src1)" by (cases x)
    show ?thesis
    proof (cases "decodeIntAdditionalType src1 (pb AND maskOutMajorType)")
      case (Inl p)
      with Inr x R ml [OF R1] show ?thesis by (simp add: map2Json.simps Let_def)
    next
      case (Inr y)
      obtain len src2 where "y = (len, src2)" by (cases y)
      with Inr \<open>readByte src = Inr x\<close> x R ml [OF R1] show ?thesis
        by (simp add: map2Json.simps Let_def)
    qed
  qed
qed

lemma al_sim_step:
  assumes W: "\<And>p msg s s'. R s s' \<Longrightarrow> R (dstWrite wr p msg s) (dstWrite wr' p msg s')"
    and al: "\<And>i len2 u src st st'. R st st' \<Longrightarrow>
        rel_option (rel_prod (=) R) (arrayLoop L wr f i len2 u src st)
          (arrayLoop L wr' f i len2 u src st')"
    and obj: "\<And>src st st'. R st st' \<Longrightarrow>
        rel_option (rel_prod (=) R) (cbor2JsonOneObject L wr f src st)
          (cbor2JsonOneObject L wr' f src st')"
    and R: "R st st'"
  shows "rel_option (rel_prod (=) R) (arrayLoop L wr (Suc f) i len2 u src st)
           (arrayLoop L wr' (Suc f) i len2 u src st')"
proof (cases "cbor2JsonOneObject L wr f src st")
  case None
  with obj [OF R, of src] have "cbor2JsonOneObject L wr' f src st' = None" by simp
  with None R W [OF R] show ?thesis
    by (simp add: arrayLoop.simps)
next
  case (Some x)
  obtain q st1 where x: "x = (q, st1)" by (cases x)
  with Some obj [OF R, of src]
  obtain st1' where B: "cbor2JsonOneObject L wr' f src st' = Some (q, st1')" and R1: "R st1 st1'"
    by (auto simp: option_rel_Some1)
  show ?thesis
  proof (cases q)
    case (Inl p)
    with Some x B R R1 W [OF R] show ?thesis
      by (simp add: arrayLoop.simps)
  next
    case (Inr src1)
    note R2 = W [OF R1, of "[0x2C]" "''Failed to write a comma''"]
    from Inr Some x B R R1 W [OF R] W [OF R1] al [OF R1] al [OF R2] show ?thesis
      by (cases src1) (simp_all add: arrayLoop.simps)
  qed
qed

lemma ml_sim_step:
  assumes W: "\<And>p msg s s'. R s s' \<Longrightarrow> R (dstWrite wr p msg s) (dstWrite wr' p msg s')"
    and ml: "\<And>i len2 u src st st'. R st st' \<Longrightarrow>
        rel_option (rel_prod (=) R) (mapLoop L wr f i len2 u src st)
          (mapLoop L wr' f i len2 u src st')"
    and obj: "\<And>src st st'. R st st' \<Longrightarrow>
        rel_option (rel_prod (=) R) (cbor2JsonOneObject L wr f src st)
          (cbor2JsonOneObject L wr' f src st')"
    and R: "R st st'"
  shows "rel_option (rel_prod (=) R) (mapLoop L wr (Suc f) i len2 u src st)
           (mapLoop L wr' (Suc f) i len2 u src st')"
proof (cases "cbor2JsonOneObject L wr f src st")
  case None
  with obj [OF R, of src] have "cbor2JsonOneObject L wr' f src st' = None" by simp
  with None R W [OF R] show ?thesis
    by (simp add: mapLoop.simps)
next
  case (Some x)
  obtain q st1 where x: "x = (q, st1)" by (cases x)
  with Some obj [OF R, of src]
  obtain st1' where B: "cbor2JsonOneObject L wr' f src st' = Some (q, st1')" and R1: "R st1 st1'"
    by (auto simp: option_rel_Some1)
  show ?thesis
  proof (cases q)
    case (Inl p)
    with Some x B R R1 W [OF R] show ?thesis
      by (simp add: mapLoop.simps)
  next
    case (Inr src1)
    note R2 = W [OF R1, of "[0x2C]" "''Can't write''"]
    note R3 = W [OF R1, of "[0x3A]" "''Can't write''"]
    show ?thesis
    proof (cases "i mod 2 = 0")
      case True
      with Inr Some x B R W [OF R] ml [OF R3] show ?thesis
        by (simp add: mapLoop.simps)
    next
      case False
      with Inr Some x B R R1 W [OF R] W [OF R1] ml [OF R1] ml [OF R2] show ?thesis
        by (cases src1) (simp_all add: mapLoop.simps)
    qed
  qed
qed

lemma sim_all:
  fixes wr :: "'a writer" and wr' :: "'b writer"
  assumes W: "\<And>p msg s s'. R s s' \<Longrightarrow> R (dstWrite wr p msg s) (dstWrite wr' p msg s')"
  shows
  "(\<forall>src st st'. R st st' \<longrightarrow>
      rel_option (rel_prod (=) R) (cbor2JsonOneObject L wr f src st)
        (cbor2JsonOneObject L wr' f src st')) \<and>
   (\<forall>src st st'. R st st' \<longrightarrow>
      rel_option (rel_prod (=) R) (array2Json L wr f src st) (array2Json L wr' f src st')) \<and>
   (\<forall>i len2 u src st st'. R st st' \<longrightarrow>
      rel_option (rel_prod (=) R) (arrayLoop L wr f i len2 u src st)
        (arrayLoop L wr' f i len2 u src st')) \<and>
   (\<forall>src st st'. R st st' \<longrightarrow>
      rel_option (rel_prod (=) R) (map2Json L wr f src st) (map2Json L wr' f src st')) \<and>
   (\<forall>i l u src st st'. R st st' \<longrightarrow>
      rel_option (rel_prod (=) R) (mapLoop L wr f i l u src st)
        (mapLoop L wr' f i l u src st'))"
proof (induction f)
  case 0
  show ?case by (simp add: cbor2JsonOneObject.simps array2Json.simps arrayLoop.simps
      map2Json.simps mapLoop.simps)
next
  case (Suc f)
  note ih_obj = Suc.IH [THEN conjunct1, rule_format]
  note ih_a2j = Suc.IH [THEN conjunct2, THEN conjunct1, rule_format]
  note ih_al = Suc.IH [THEN conjunct2, THEN conjunct2, THEN conjunct1, rule_format]
  note ih_m2j = Suc.IH [THEN conjunct2, THEN conjunct2, THEN conjunct2, THEN conjunct1, rule_format]
  note ih_ml = Suc.IH [THEN conjunct2, THEN conjunct2, THEN conjunct2, THEN conjunct2, rule_format]
  show ?case
  proof (intro conjI allI impI)
    fix src :: "byte list" and st :: "'a \<times> errlog" and st' :: "'b \<times> errlog"
    assume "R st st'"
    then show "rel_option (rel_prod (=) R) (cbor2JsonOneObject L wr (Suc f) src st)
        (cbor2JsonOneObject L wr' (Suc f) src st')"
      by (intro obj_sim_step W ih_a2j ih_m2j)
  next
    fix src :: "byte list" and st :: "'a \<times> errlog" and st' :: "'b \<times> errlog"
    assume "R st st'"
    then show "rel_option (rel_prod (=) R) (array2Json L wr (Suc f) src st)
        (array2Json L wr' (Suc f) src st')"
      by (intro a2j_sim_step W ih_al)
  next
    fix i len2 u and src :: "byte list" and st :: "'a \<times> errlog" and st' :: "'b \<times> errlog"
    assume "R st st'"
    then show "rel_option (rel_prod (=) R) (arrayLoop L wr (Suc f) i len2 u src st)
        (arrayLoop L wr' (Suc f) i len2 u src st')"
      by (intro al_sim_step W ih_al ih_obj)
  next
    fix src :: "byte list" and st :: "'a \<times> errlog" and st' :: "'b \<times> errlog"
    assume "R st st'"
    then show "rel_option (rel_prod (=) R) (map2Json L wr (Suc f) src st)
        (map2Json L wr' (Suc f) src st')"
      by (intro m2j_sim_step W ih_ml)
  next
    fix i l u and src :: "byte list" and st :: "'a \<times> errlog" and st' :: "'b \<times> errlog"
    assume "R st st'"
    then show "rel_option (rel_prod (=) R) (mapLoop L wr (Suc f) i l u src st)
        (mapLoop L wr' (Suc f) i l u src st')"
      by (intro ml_sim_step W ih_ml ih_obj)
  qed
qed

lemmas cbor2JsonOneObject_sim = sim_all [THEN conjunct1, rule_format]

lemma manyObjLoop_sim:
  fixes wr :: "'a writer" and wr' :: "'b writer"
  assumes W: "\<And>p msg s s'. R s s' \<Longrightarrow> R (dstWrite wr p msg s) (dstWrite wr' p msg s')"
  shows "R st st' \<Longrightarrow>
     rel_option (rel_prod (=) R) (manyObjLoop L wr f src st) (manyObjLoop L wr' f src st')"
proof (induction f arbitrary: src st st')
  case 0
  show ?case by (simp add: manyObjLoop.simps)
next
  case (Suc f)
  note R = Suc.prems
  show ?case
  proof (cases "cbor2JsonOneObject L wr f src st")
    case None
    with cbor2JsonOneObject_sim [of R wr wr', OF W R, of L f src]
    have "cbor2JsonOneObject L wr' f src st' = None" by simp
    with None R show ?thesis by (simp add: manyObjLoop.simps)
  next
    case (Some x)
    obtain q st1 where x: "x = (q, st1)" by (cases x)
    with Some cbor2JsonOneObject_sim [of R wr wr', OF W R, of L f src]
    obtain st1' where B: "cbor2JsonOneObject L wr' f src st' = Some (q, st1')"
      and R1: "R st1 st1'"
      by (auto simp: option_rel_Some1)
    note R2 = W [OF R1, of "[0x0A]" "''Can't write''"]
    from Some x B R R1 Suc.IH [OF R2] show ?thesis
      by (cases q) (simp_all add: manyObjLoop.simps)
  qed
qed

text \<open>
  A sink that refuses commas: the array \<^verbatim>\<open>[1,2]\<close> is decoded to its end, the sink holds
  \<^verbatim>\<open>[12]\<close> and the newline, the driver returns \<^verbatim>\<open>nil\<close>, and the logger has the one error.
\<close>

lemma write_error_example:
  "ManyObjCBOR2JSON L (\<lambda>w p. if p = [0x2C] then (w, Some (str ''full'')) else (w @ p, None))
       [0x82, 0x01, 0x02] ([], [])
     = Some (Inr None, ([0x5B, 0x31, 0x32, 0x5D, 0x0A],
                        [(str ''full'', ''Failed to write a comma'')]))"
proof -
  let ?wr = "\<lambda>(w :: byte list) (p :: byte list).
      if p = [0x2C] then (w, Some (str ''full'')) else (w @ p, None)"
  let ?src = "[0x82, 0x01, 0x02] :: byte list"
  have "cbor2JsonOneObject L ?wr (fuel ?src) ?src ([], [])
          = cbor2JsonOneObject L ?wr (Suc (Suc (Suc (Suc (Suc (Suc (Suc (Suc (Suc (Suc (Suc 0))))))))))) ?src ([], [])"
    by (rule cbor2JsonOneObject_fuel) (simp_all add: fuel_def)
  also have "\<dots> = Some (Inr [], ([0x5B, 0x31, 0x32, 0x5D],
                        [(str ''full'', ''Failed to write a comma'')]))"
    by (simp add: cbor2JsonOneObject.simps array2Json.simps arrayLoop.simps const_defs
        readByte_def decodeInteger_def decodeIntAdditionalType_def Itoa_def digits.simps
        dstWrite_def HandleErr_def)
  finally have 1: "cbor2JsonOneObject L ?wr (fuel ?src) ?src ([], [])
      = Some (Inr [], ([0x5B, 0x31, 0x32, 0x5D], [(str ''full'', ''Failed to write a comma'')]))" .
  show ?thesis
    by (subst ManyObjCBOR2JSON_nonempty, simp, simp only: 1,
        simp add: ManyObjCBOR2JSON_Nil dstWrite_def HandleErr_def)
qed

lemma replay_snoc: "replay wr st (tr @ [(p, msg)]) = dstWrite wr p msg (replay wr st tr)"
  by (simp add: replay_def)

lemma replay_buffer: "replay bufferWrite (b, lg) tr = (b @ concat (map fst tr), lg)"
  by (induction tr rule: rev_induct) (auto simp: replay_snoc, simp add: replay_def)

lemma replay_sim:
  "R = (\<lambda>s s'. s = replay wr st0 (snd s')) \<Longrightarrow> R s s' \<Longrightarrow>
     R (dstWrite wr p msg s) (dstWrite rejectWrite p msg s')"
  by (simp add: dstWrite_def [of rejectWrite] rejectWrite_def HandleErr_def replay_snoc)

lemma cbor2JsonOneObject_replay:
  assumes "cbor2JsonOneObject L rejectWrite f src ((), []) = Some (q, ((), tr))"
  shows "cbor2JsonOneObject L wr f src st = Some (q, replay wr st tr)"
proof -
  define R where "R = (\<lambda>(s :: 'a \<times> errlog) (s' :: unit \<times> errlog). s = replay wr st (snd s'))"
  have W: "R (dstWrite wr p msg s) (dstWrite rejectWrite p msg s')" if "R s s'" for p msg s s'
    using R_def that by (rule replay_sim)
  have "R st ((), [])" by (simp add: R_def replay_def)
  from cbor2JsonOneObject_sim [of R wr rejectWrite, OF W this, of L f src] assms
  show ?thesis
    by (auto simp: option_rel_Some2 R_def)
qed

lemma manyObjLoop_replay:
  assumes "manyObjLoop L rejectWrite f src ((), []) = Some (q, ((), tr))"
  shows "manyObjLoop L wr f src st = Some (q, replay wr st tr)"
proof -
  define R where "R = (\<lambda>(s :: 'a \<times> errlog) (s' :: unit \<times> errlog). s = replay wr st (snd s'))"
  have W: "R (dstWrite wr p msg s) (dstWrite rejectWrite p msg s')" if "R s s'" for p msg s s'
    using R_def that by (rule replay_sim)
  have "R st ((), [])" by (simp add: R_def replay_def)
  from manyObjLoop_sim [of R wr rejectWrite, OF W this, of L f src] assms
  show ?thesis
    by (auto simp: option_rel_Some2 R_def)
qed

lemma ManyObjCBOR2JSON_replay:
  assumes "ManyObjCBOR2JSON L rejectWrite src ((), []) = Some (r, ((), tr))"
  shows "ManyObjCBOR2JSON L wr src st = Some (r, replay wr st tr)"
proof -
  from assms obtain q where "manyObjLoop L rejectWrite (fuel src) src ((), []) = Some (q, ((), tr))"
    and r: "r = (case q of Inl (RuntimeError e) \<Rightarrow> Inl (RuntimeError e)
                  | Inl (Error e) \<Rightarrow> Inr (Some e) | Inr _ \<Rightarrow> Inr None)"
    by (auto simp: ManyObjCBOR2JSON_def split: option.splits sum.splits panic_value.splits)
  from manyObjLoop_replay [OF this(1), of wr st] r show ?thesis
    by (auto simp: ManyObjCBOR2JSON_def split: sum.splits panic_value.splits)
qed

text \<open>
  Claim C9.  For every input there is one result \<open>q\<close> (the panic, or the input left) and
  one list of writes \<open>tr\<close>, those of the run on the sink that fails every time, such that
  the dispatcher on any sink \<open>wr\<close>, from any state, returns \<open>q\<close> and leaves the sink and
  the logger as the replay of \<open>tr\<close> leaves them; on a buffer, where no write fails, the
  result is \<open>q\<close> too and the buffer gains the bytes of \<open>tr\<close>.  So whether and when writes
  fail changes neither what is read, nor the result, nor which writes follow.  The same
  holds of \<^verbatim>\<open>ManyObjCBOR2JSON\<close> with the error it returns.  A replay does one write after the
  other, and a write hands its error, if any, to the logger with the message of the call
  and does nothing else with it.
\<close>

theorem C9_write_errors:
  "(\<exists>q tr. cbor2JsonOneObject L rejectWrite (fuel src) src ((), []) = Some (q, ((), tr)) \<and>
       (\<forall>(wr :: 'w writer) st. cbor2JsonOneObject L wr (fuel src) src st = Some (q, replay wr st tr)) \<and>
       (\<forall>b lg. cbor2JsonOneObject L bufferWrite (fuel src) src (b, lg)
                  = Some (q, (b @ concat (map fst tr), lg)))) \<and>
   (\<exists>r tr. ManyObjCBOR2JSON L rejectWrite src ((), []) = Some (r, ((), tr)) \<and>
       (\<forall>(wr :: 'w writer) st. ManyObjCBOR2JSON L wr src st = Some (r, replay wr st tr)) \<and>
       (\<forall>b lg. ManyObjCBOR2JSON L bufferWrite src (b, lg)
                  = Some (r, (b @ concat (map fst tr), lg)))) \<and>
   (\<forall>(wr :: 'w writer) st tr p msg. replay wr st [] = st \<and>
       replay wr st (tr @ [(p, msg)]) = dstWrite wr p msg (replay wr st tr)) \<and>
   (\<forall>(wr :: 'w writer) w lg p msg. dstWrite wr p msg (w, lg)
       = (fst (wr w p), case snd (wr w p) of None \<Rightarrow> lg | Some e \<Rightarrow> lg @ [(e, msg)]))"
proof (intro conjI)
  from cbor2JsonOneObject_returns [of src "fuel src" L rejectWrite "((), [])"]
  obtain q u tr where o: "cbor2JsonOneObject L rejectWrite (fuel src) src ((), []) = Some (q, (u, tr))"
    by (auto simp: fuel_def)
  then have o': "cbor2JsonOneObject L rejectWrite (fuel src) src ((), []) = Some (q, ((), tr))"
    by simp
  show "\<exists>q tr. cbor2JsonOneObject L rejectWrite (fuel src) src ((), []) = Some (q, ((), tr)) \<and>
       (\<forall>(wr :: 'w writer) st. cbor2JsonOneObject L wr (fuel src) src st = Some (q, replay wr st tr)) \<and>
       (\<forall>b lg. cbor2JsonOneObject L bufferWrite (fuel src) src (b, lg)
                  = Some (q, (b @ concat (map fst tr), lg)))"
  proof (intro exI [of _ q] exI [of _ tr] conjI allI)
    show "cbor2JsonOneObject L rejectWrite (fuel src) src ((), []) = Some (q, ((), tr))"
      by (rule o')
    show "cbor2JsonOneObject L wr (fuel src) src st = Some (q, replay wr st tr)"
      for wr :: "'w writer" and st
      by (rule cbor2JsonOneObject_replay [OF o'])
    show "cbor2JsonOneObject L bufferWrite (fuel src) src (b, lg)
            = Some (q, (b @ concat (map fst tr), lg))" for b lg
      using cbor2JsonOneObject_replay [OF o', of bufferWrite "(b, lg)"]
      by (simp add: replay_buffer)
  qed
next
  have "manyObjLoop L rejectWrite (fuel src) src ((), []) \<noteq> None"
    by (rule manyObjLoop_enough) (simp add: fuel_def)
  then obtain q u tr where l: "manyObjLoop L rejectWrite (fuel src) src ((), []) = Some (q, (u, tr))"
    by auto
  have "\<exists>r. ManyObjCBOR2JSON L rejectWrite src ((), []) = Some (r, (u, tr))"
  proof (cases q)
    case (Inl p)
    with l show ?thesis by (cases p) (simp_all add: ManyObjCBOR2JSON_def)
  next
    case (Inr x)
    with l show ?thesis by (simp add: ManyObjCBOR2JSON_def)
  qed
  then obtain r where "ManyObjCBOR2JSON L rejectWrite src ((), []) = Some (r, (u, tr))"
    by blast
  then have m: "ManyObjCBOR2JSON L rejectWrite src ((), []) = Some (r, ((), tr))" by simp
  show "\<exists>r tr. ManyObjCBOR2JSON L rejectWrite src ((), []) = Some (r, ((), tr)) \<and>
       (\<forall>(wr :: 'w writer) st. ManyObjCBOR2JSON L wr src st = Some (r, replay wr st tr)) \<and>
       (\<forall>b lg. ManyObjCBOR2JSON L bufferWrite src (b, lg)
                  = Some (r, (b @ concat (map fst tr), lg)))"
  proof (intro exI [of _ r] exI [of _ tr] conjI allI)
    show "ManyObjCBOR2JSON L rejectWrite src ((), []) = Some (r, ((), tr))"
      by (rule m)
    show "ManyObjCBOR2JSON L wr src st = Some (r, replay wr st tr)"
      for wr :: "'w writer" and st
      by (rule ManyObjCBOR2JSON_replay [OF m])
    show "ManyObjCBOR2JSON L bufferWrite src (b, lg)
            = Some (r, (b @ concat (map fst tr), lg))" for b lg
      using ManyObjCBOR2JSON_replay [OF m, of bufferWrite "(b, lg)"]
      by (simp add: replay_buffer)
  qed
next
  show "\<forall>(wr :: 'w writer) st tr p msg. replay wr st [] = st \<and>
       replay wr st (tr @ [(p, msg)]) = dstWrite wr p msg (replay wr st tr)"
    by (simp add: replay_def)
next
  show "\<forall>(wr :: 'w writer) w lg p msg. dstWrite wr p msg (w, lg)
       = (fst (wr w p), case snd (wr w p) of None \<Rightarrow> lg | Some e \<Rightarrow> lg @ [(e, msg)])"
    by (simp add: dstWrite_def HandleErr_def split: prod.splits)
qed

end
